theory Spec2Isabelle
  imports Main "HOL-Library.Monad_Syntax"
begin

section \<open>Characters and character classes\<close>

text \<open>
  A Python string is modelled as a list of characters, every \<^typ>\<open>char\<close> standing for one
  code point below 256. The classes are the bracket expressions and escapes that occur in
  the patterns of \<^verbatim>\<open>DiscordMarkdown\<close>.
\<close>

definition in_range :: "nat \<Rightarrow> nat \<Rightarrow> char \<Rightarrow> bool" where
  "in_range lo hi c \<longleftrightarrow> lo \<le> of_char c \<and> (of_char c :: nat) \<le> hi"

definition is_lower :: "char \<Rightarrow> bool" where
  "is_lower c \<longleftrightarrow> in_range 97 122 c"

definition is_upper :: "char \<Rightarrow> bool" where
  "is_upper c \<longleftrightarrow> in_range 65 90 c"

definition is_digit :: "char \<Rightarrow> bool" where
  "is_digit c \<longleftrightarrow> in_range 48 57 c"

definition is_alnum :: "char \<Rightarrow> bool" where
  "is_alnum c \<longleftrightarrow> is_lower c \<or> is_upper c \<or> is_digit c"

text \<open>\<^verbatim>\<open>\s\<close>: tab, line feed, vertical tab, form feed, carriage return, space, and the two
  white-space code points U+0085 and U+00A0 of the range.\<close>

definition is_space :: "char \<Rightarrow> bool" where
  "is_space c \<longleftrightarrow> in_range 9 13 c \<or> of_char c = (32::nat)
     \<or> of_char c = (133::nat) \<or> of_char c = (160::nat)"

definition newline :: char where
  "newline = CHR 0x0A"

definition backslash :: char where
  "backslash = CHR 0x5C"

definition backtick :: char where
  "backtick = CHR 0x60"

text \<open>\<^verbatim>\<open>[^a-zA-Z0-9\s]\<close>\<close>

definition is_symbol :: "char \<Rightarrow> bool" where
  "is_symbol c \<longleftrightarrow> \<not> is_alnum c \<and> \<not> is_space c"

text \<open>\<^verbatim>\<open>[a-zA-Z0-9-]\<close>\<close>

definition is_lang :: "char \<Rightarrow> bool" where
  "is_lang c \<longleftrightarrow> is_alnum c \<or> c = CHR ''-''"

text \<open>\<^verbatim>\<open>.\<close> and \<^verbatim>\<open>[^\n]\<close>\<close>

definition is_dot :: "char \<Rightarrow> bool" where
  "is_dot c \<longleftrightarrow> c \<noteq> newline"

text \<open>\<^verbatim>\<open>\n\<close>\<close>

definition is_newline :: "char \<Rightarrow> bool" where
  "is_newline c \<longleftrightarrow> c = newline"

text \<open>\<^verbatim>\<open>[\s\S]\<close>\<close>

definition is_any :: "char \<Rightarrow> bool" where
  "is_any c \<longleftrightarrow> is_space c \<or> \<not> is_space c"

text \<open>\<^verbatim>\<open>[^`]\<close>\<close>

definition not_backtick :: "char \<Rightarrow> bool" where
  "not_backtick c \<longleftrightarrow> c \<noteq> backtick"

text \<open>\<^verbatim>\<open>\S\<close>\<close>

definition is_nonspace :: "char \<Rightarrow> bool" where
  "is_nonspace c \<longleftrightarrow> \<not> is_space c"

text \<open>\<^verbatim>\<open>[^\n\S]\<close>\<close>

definition is_hspace :: "char \<Rightarrow> bool" where
  "is_hspace c \<longleftrightarrow> \<not> (c = newline \<or> is_nonspace c)"

text \<open>The blank of \<^verbatim>\<open> *\<close>\<close>

definition is_blank :: "char \<Rightarrow> bool" where
  "is_blank c \<longleftrightarrow> c = CHR '' ''"

text \<open>\<^verbatim>\<open>[s]\<close>\<close>

definition is_s :: "char \<Rightarrow> bool" where
  "is_s c \<longleftrightarrow> c = CHR ''s''"

text \<open>\<^verbatim>\<open>[0-9a-zA-Z_]\<close>\<close>

definition is_name :: "char \<Rightarrow> bool" where
  "is_name c \<longleftrightarrow> is_digit c \<or> is_lower c \<or> is_upper c \<or> c = CHR ''_''"

text \<open>\<^verbatim>\<open>[a-zA-Z0-9!-;=?-~\s]\<close>\<close>

definition is_wtext :: "char \<Rightarrow> bool" where
  "is_wtext c \<longleftrightarrow> is_alnum c \<or> in_range 33 59 c \<or> c = CHR ''='' \<or> in_range 63 126 c
     \<or> is_space c"

section \<open>Regular expressions with backtracking\<close>

text \<open>
  The patterns are compiled by the \<^verbatim>\<open>regex\<close> library. Its matcher is modelled as the list
  of successes of a backtracking search, in the order in which the search tries them: the
  head of the list is the match the library reports. A success is the position after the
  match and the spans of the groups that took part. Repetition is only needed for
  character classes: \<open>Rep greedy lo hi p\<close> is \<^verbatim>\<open>p{lo,hi}\<close>, lazy when \<open>greedy\<close> is false,
  unbounded when \<open>hi\<close> is \<open>None\<close>.
\<close>

type_synonym caps = "nat \<rightharpoonup> nat \<times> nat"

datatype re =
    Lit string
  | Cls "char \<Rightarrow> bool"
  | Rep bool nat "nat option" "char \<Rightarrow> bool"
  | Seq re re
  | Alt re re
  | Opt re
  | Grp nat re
  | Backref nat
  | NotBehind char
  | NotAhead char
  | Bol

definition slice :: "'a list \<Rightarrow> nat \<Rightarrow> nat \<Rightarrow> 'a list" where
  "slice xs a b = take (b - a) (drop a xs)"

definition starts_with :: "string \<Rightarrow> nat \<Rightarrow> string \<Rightarrow> bool" where
  "starts_with s i t \<longleftrightarrow> take (length t) (drop i s) = t"

definition run :: "(char \<Rightarrow> bool) \<Rightarrow> string \<Rightarrow> nat \<Rightarrow> nat option \<Rightarrow> nat" where
  "run p s i hi = (let n = length (takeWhile p (drop i s))
                   in case hi of None \<Rightarrow> n | Some h \<Rightarrow> min h n)"

fun ms :: "re \<Rightarrow> string \<Rightarrow> nat \<times> caps \<Rightarrow> (nat \<times> caps) list" where
  "ms (Lit t) s (i, c) = (if starts_with s i t then [(i + length t, c)] else [])"
| "ms (Cls p) s (i, c) = (if i < length s \<and> p (s ! i) then [(i + 1, c)] else [])"
| "ms (Rep greedy lo hi p) s (i, c) =
     (let ks = [lo ..< Suc (run p s i hi)]
      in map (\<lambda>k. (i + k, c)) (if greedy then rev ks else ks))"
| "ms (Seq a b) s st = concat (map (ms b s) (ms a s st))"
| "ms (Alt a b) s st = ms a s st @ ms b s st"
| "ms (Opt a) s st = ms a s st @ [st]"
| "ms (Grp n a) s (i, c) = map (\<lambda>(j, c'). (j, c'(n \<mapsto> (i, j)))) (ms a s (i, c))"
| "ms (Backref n) s (i, c) =
     (case c n of
        None \<Rightarrow> []
      | Some (a, b) \<Rightarrow>
          (if starts_with s i (slice s a b) then [(i + length (slice s a b), c)] else []))"
| "ms (NotBehind x) s (i, c) = (if 0 < i \<and> s ! (i - 1) = x then [] else [(i, c)])"
| "ms (NotAhead x) s (i, c) = (if i < length s \<and> s ! i = x then [] else [(i, c)])"
| "ms Bol s (i, c) = (if i = 0 \<or> s ! (i - 1) = newline then [(i, c)] else [])"

fun seqs :: "re list \<Rightarrow> re" where
  "seqs [] = Lit []"
| "seqs [r] = r"
| "seqs (r # rs) = Seq r (seqs rs)"

text \<open>A match: start, end and group spans. \<open>match_at\<close> is an anchored attempt at one
  position, \<open>search\<close> the leftmost position from \<open>pos\<close> on at which an attempt succeeds.\<close>

type_synonym span = "nat \<times> nat \<times> caps"

definition match_at :: "re \<Rightarrow> string \<Rightarrow> nat \<Rightarrow> span option" where
  "match_at p s i = (case ms p s (i, Map.empty) of [] \<Rightarrow> None | (j, c) # _ \<Rightarrow> Some (i, j, c))"

fun first_match :: "re \<Rightarrow> string \<Rightarrow> nat list \<Rightarrow> span option" where
  "first_match p s [] = None"
| "first_match p s (i # is) =
     (case match_at p s i of None \<Rightarrow> first_match p s is | Some m \<Rightarrow> Some m)"

definition search :: "re \<Rightarrow> string \<Rightarrow> nat \<Rightarrow> span option" where
  "search p s pos = first_match p s [pos ..< Suc (length s)]"

lemma first_match_bounds:
  "first_match p s is = Some (i, j, c) \<Longrightarrow> i \<in> set is"
  by (induction "is") (auto simp: match_at_def split: option.splits list.splits)

lemma search_bounds:
  "search p s pos = Some (i, j, c) \<Longrightarrow> pos \<le> i \<and> i \<le> length s"
  using first_match_bounds [of p s "[pos ..< Suc (length s)]" i j c]
  by (simp add: search_def del: upt_Suc)

text \<open>All non-overlapping matches, left to right. After an empty match the scan resumes
  one character further on; no pattern of the engine has an empty match.\<close>

function finditer_from :: "re \<Rightarrow> string \<Rightarrow> nat \<Rightarrow> span list" where
  "finditer_from p s pos =
     (case search p s pos of
        None \<Rightarrow> []
      | Some (i, j, c) \<Rightarrow>
          (i, j, c) # (if i < j then finditer_from p s j else finditer_from p s (Suc i)))"
  by pat_completeness auto
termination
  by (relation "measure (\<lambda>(p, s, pos). Suc (length s) - pos)")
     (auto dest!: search_bounds)

declare finditer_from.simps [simp del]

definition finditer :: "re \<Rightarrow> string \<Rightarrow> span list" where
  "finditer p s = finditer_from p s 0"

section \<open>Buffers, match objects and substitution\<close>

text \<open>
  The pipeline is written once for any kind of buffer element: \<open>chr_of\<close> reads the
  character of an element, \<open>emit\<close> makes the element for a character of a replacement
  template. Over \<open>plain\<close> the buffer is the Python string itself.
\<close>

record 'a alphabet =
  chr_of :: "'a \<Rightarrow> char"
  emit :: "char \<Rightarrow> 'a"

definition plain :: "char alphabet" where
  "plain = \<lparr>chr_of = (\<lambda>c. c), emit = (\<lambda>c. c)\<rparr>"

definition text_of :: "'a alphabet \<Rightarrow> 'a list \<Rightarrow> string" where
  "text_of A buf = map (chr_of A) buf"

definition tpl :: "'a alphabet \<Rightarrow> string \<Rightarrow> 'a list" where
  "tpl A t = map (emit A) t"

record 'a pymatch =
  subject :: "'a list"
  m_start :: nat
  m_end :: nat
  m_caps :: caps

text \<open>\<^verbatim>\<open>m.group(n)\<close>: \<open>None\<close> when the group took no part in the match.\<close>

definition group :: "'a pymatch \<Rightarrow> nat \<Rightarrow> 'a list option" where
  "group m n = (case m_caps m n of None \<Rightarrow> None | Some (a, b) \<Rightarrow> Some (slice (subject m) a b))"

text \<open>\<^verbatim>\<open>\g<n>\<close> in a replacement template: empty when the group took no part.\<close>

definition expand :: "'a pymatch \<Rightarrow> nat \<Rightarrow> 'a list" where
  "expand m n = (case group m n of None \<Rightarrow> [] | Some t \<Rightarrow> t)"

text \<open>\<^verbatim>\<open>pattern.sub(repl, string)\<close>. The text between matches is copied, every match is
  replaced by what the callback returns. A callback that returns \<^verbatim>\<open>None\<close> is taken to
  raise, so that the result of the substitution is \<open>None\<close>.\<close>

fun splice :: "('a pymatch \<Rightarrow> 'a list option) \<Rightarrow> 'a list \<Rightarrow> nat \<Rightarrow> span list
    \<Rightarrow> 'a list option" where
  "splice repl buf pos [] = Some (drop pos buf)"
| "splice repl buf pos ((i, j, c) # rest) =
     (case repl \<lparr>subject = buf, m_start = i, m_end = j, m_caps = c\<rparr> of
        None \<Rightarrow> None
      | Some r \<Rightarrow>
          (case splice repl buf j rest of
             None \<Rightarrow> None
           | Some out \<Rightarrow> Some (slice buf pos i @ r @ out)))"

definition sub :: "'a alphabet \<Rightarrow> re \<Rightarrow> ('a pymatch \<Rightarrow> 'a list option) \<Rightarrow> 'a list
    \<Rightarrow> 'a list option" where
  "sub A p repl buf = splice repl buf 0 (finditer p (text_of A buf))"

section \<open>The engine of \<^verbatim>\<open>src/utils/discordMarkdownParser.py\<close>\<close>

subsection \<open>Symbol protection\<close>

text \<open>\<^verbatim>\<open>(?P<content>[^a-zA-Z0-9\s])\<close>\<close>

definition symbols_pattern :: re where
  "symbols_pattern = Grp 1 (Cls is_symbol)"

text \<open>\<^verbatim>\<open>\\(?P<content>[^a-zA-Z0-9\s])\<close>\<close>

definition escaped_symbols_pattern :: re where
  "escaped_symbols_pattern = Seq (Lit [backslash]) (Grp 1 (Cls is_symbol))"

definition escape_symbols_repl :: "'a alphabet \<Rightarrow> 'a pymatch \<Rightarrow> 'a list option" where
  "escape_symbols_repl A m =
     (case group m 1 of None \<Rightarrow> None | Some content \<Rightarrow> Some (tpl A [backslash] @ content))"

definition escape_symbols :: "'a alphabet \<Rightarrow> 'a list \<Rightarrow> 'a list option" where
  "escape_symbols A input = sub A symbols_pattern (escape_symbols_repl A) input"

definition remove_escaped_symbol_repl :: "'a pymatch \<Rightarrow> 'a list option" where
  "remove_escaped_symbol_repl m = group m 1"

definition remove_escaped_symbol :: "'a alphabet \<Rightarrow> 'a list \<Rightarrow> 'a list option" where
  "remove_escaped_symbol A input = sub A escaped_symbols_pattern remove_escaped_symbol_repl input"

subsection \<open>HTML escaping\<close>

text \<open>\<^verbatim>\<open>jinja2.escape\<close>: the characters \<^verbatim>\<open>&\<close>, \<^verbatim>\<open><\<close>, \<^verbatim>\<open>>\<close>, \<^verbatim>\<open>'\<close> and \<^verbatim>\<open>"\<close> become entities, the
  text of an entity being emitted by the engine.\<close>

definition entity :: "char \<Rightarrow> string option" where
  "entity c =
     (if c = CHR ''&'' then Some ''&amp;''
      else if c = CHR ''<'' then Some ''&lt;''
      else if c = CHR ''>'' then Some ''&gt;''
      else if c = CHR 0x27 then Some ''&#39;''
      else if c = CHR 0x22 then Some ''&#34;''
      else None)"

definition escape_elem :: "'a alphabet \<Rightarrow> 'a \<Rightarrow> 'a list" where
  "escape_elem A x = (case entity (chr_of A x) of None \<Rightarrow> [x] | Some e \<Rightarrow> tpl A e)"

definition escape :: "'a alphabet \<Rightarrow> 'a list \<Rightarrow> 'a list" where
  "escape A input = concat (map (escape_elem A) input)"

subsection \<open>Code blocks\<close>

text \<open>\<^verbatim>\<open>(?P<stag>```)(?:(?P<lang>[a-zA-Z0-9-]+?)\n+)?\n*(?P<content>[\s\S]+?)\n*(?P<etag>```)\<close>\<close>

definition fence :: string where
  "fence = [backtick, backtick, backtick]"

definition codeblock_pattern :: re where
  "codeblock_pattern = seqs
     [Grp 1 (Lit fence),
      Opt (Seq (Grp 2 (Rep False 1 None is_lang)) (Rep True 1 None is_newline)),
      Rep True 0 None is_newline,
      Grp 3 (Rep False 1 None is_any),
      Rep True 0 None is_newline,
      Grp 4 (Lit fence)]"

definition codeblock_repl :: "'a alphabet \<Rightarrow> 'a pymatch \<Rightarrow> 'a list option" where
  \<open>codeblock_repl A m =
     (let e_tag = tpl A ''</div>'';
          s_tag = (case group m 2 of
                     Some lang \<Rightarrow> tpl A ''<div class="pre pre--multiline language-'' @ lang @ tpl A ''">''
                   | None \<Rightarrow> tpl A ''<div class="pre pre--multiline nohighlight">'')
      in case group m 3 of
           None \<Rightarrow> None
         | Some content \<Rightarrow>
             (case escape_symbols A content of
                None \<Rightarrow> None
              | Some content' \<Rightarrow> Some (s_tag @ content' @ e_tag)))\<close>

definition codeblock :: "'a alphabet \<Rightarrow> 'a list \<Rightarrow> 'a list option" where
  "codeblock A input = sub A codeblock_pattern (codeblock_repl A) input"

text \<open>\<^verbatim>\<open>(?<!\\)(`)(?P<content>[^`]*?[^`])(\1)(?!`)\<close>\<close>

definition inlinecodeblock_pattern :: re where
  "inlinecodeblock_pattern = seqs
     [NotBehind backslash,
      Grp 1 (Lit [backtick]),
      Grp 2 (Seq (Rep False 0 None not_backtick) (Cls not_backtick)),
      Grp 3 (Backref 1),
      NotAhead backtick]"

definition inline_codeblock_repl :: "'a alphabet \<Rightarrow> 'a pymatch \<Rightarrow> 'a list option" where
  \<open>inline_codeblock_repl A m =
     (let s_tag = tpl A ''<span class="pre pre--inline">'';
          e_tag = tpl A ''</span>''
      in case group m 2 of
           None \<Rightarrow> None
         | Some content \<Rightarrow>
             (case escape_symbols A content of
                None \<Rightarrow> None
              | Some content' \<Rightarrow> Some (s_tag @ content' @ e_tag)))\<close>

definition inline_codeblock :: "'a alphabet \<Rightarrow> 'a list \<Rightarrow> 'a list option" where
  "inline_codeblock A input = sub A inlinecodeblock_pattern (inline_codeblock_repl A) input"

subsection \<open>Delimiter pairs\<close>

text \<open>The replacement template \<^verbatim>\<open>{first_tag}\g<content>{end_tag}\<close>.\<close>

definition wrap_repl :: "'a alphabet \<Rightarrow> string \<Rightarrow> string \<Rightarrow> 'a pymatch \<Rightarrow> 'a list option" where
  "wrap_repl A first_tag end_tag m = Some (tpl A first_tag @ expand m 1 @ tpl A end_tag)"

text \<open>\<^verbatim>\<open>(?<!\\)\|\|(?P<content>.+?)(?<!\\)\|\|\<close>\<close>

definition spoiler_pattern :: re where
  "spoiler_pattern = seqs
     [NotBehind backslash, Lit ''||'', Grp 1 (Rep False 1 None is_dot),
      NotBehind backslash, Lit ''||'']"

definition spoiler :: "'a alphabet \<Rightarrow> 'a list \<Rightarrow> 'a list option" where
  \<open>spoiler A input = sub A spoiler_pattern (wrap_repl A ''<span class="spoiler">'' ''</span>'') input\<close>

text \<open>\<^verbatim>\<open>(?<!\\)\*\*(?P<content>.+?)(?<!\\)\*\*\<close>\<close>

definition bold_pattern :: re where
  "bold_pattern = seqs
     [NotBehind backslash, Lit ''**'', Grp 1 (Rep False 1 None is_dot),
      NotBehind backslash, Lit ''**'']"

definition bold :: "'a alphabet \<Rightarrow> 'a list \<Rightarrow> 'a list option" where
  "bold A input = sub A bold_pattern (wrap_repl A ''<strong>'' ''</strong>'') input"

text \<open>\<^verbatim>\<open>(?<!\\)__(?P<content>.+?)(?<!\\)__\<close>\<close>

definition underline_pattern :: re where
  "underline_pattern = seqs
     [NotBehind backslash, Lit ''__'', Grp 1 (Rep False 1 None is_dot),
      NotBehind backslash, Lit ''__'']"

definition underline :: "'a alphabet \<Rightarrow> 'a list \<Rightarrow> 'a list option" where
  "underline A input = sub A underline_pattern (wrap_repl A ''<u>'' ''</u>'') input"

text \<open>\<^verbatim>\<open>(?:(?<!\\)\*(?P<s_content>.+?)(?<!\\)\*)|(?:(?<!\\)_(?P<u_content>.+?)(?<!\\)_)\<close>\<close>

definition italics_pattern :: re where
  "italics_pattern = Alt
     (seqs [NotBehind backslash, Lit ''*'', Grp 1 (Rep False 1 None is_dot),
            NotBehind backslash, Lit ''*''])
     (seqs [NotBehind backslash, Lit ''_'', Grp 2 (Rep False 1 None is_dot),
            NotBehind backslash, Lit ''_''])"

definition italics_repl :: "'a alphabet \<Rightarrow> 'a pymatch \<Rightarrow> 'a list option" where
  "italics_repl A m =
     (let s_tag = tpl A ''<em>''; e_tag = tpl A ''</em>''
      in case group m 1 of
           Some s_content \<Rightarrow> Some (s_tag @ s_content @ e_tag)
         | None \<Rightarrow>
             (case group m 2 of
                Some u_content \<Rightarrow> Some (s_tag @ u_content @ e_tag)
              | None \<Rightarrow> None))"

definition italics :: "'a alphabet \<Rightarrow> 'a list \<Rightarrow> 'a list option" where
  "italics A input = sub A italics_pattern (italics_repl A) input"

text \<open>\<^verbatim>\<open>(?<!\\)~~(?P<content>.+?)(?<!\\)~~(?!_)\<close>\<close>

definition strikethrough_pattern :: re where
  "strikethrough_pattern = seqs
     [NotBehind backslash, Lit ''~~'', Grp 1 (Rep False 1 None is_dot),
      NotBehind backslash, Lit ''~~'', NotAhead (CHR ''_'')]"

definition strikethrough :: "'a alphabet \<Rightarrow> 'a list \<Rightarrow> 'a list option" where
  "strikethrough A input = sub A strikethrough_pattern (wrap_repl A ''<s>'' ''</s>'') input"

subsection \<open>Block quotes\<close>

text \<open>\<^verbatim>\<open>^(?: *&gt;&gt;&gt; ([\s\S]*))|^(?: *&gt; ([^\n]*\n*))\<close> with \<^verbatim>\<open>re.MULTILINE\<close>\<close>

definition blockQuote_pattern :: re where
  "blockQuote_pattern = Alt
     (seqs [Bol, Rep True 0 None is_blank, Lit ''&gt;&gt;&gt; '', Grp 1 (Rep True 0 None is_any)])
     (seqs [Bol, Rep True 0 None is_blank, Lit ''&gt; '',
            Grp 2 (Seq (Rep True 0 None is_dot) (Rep True 0 None is_newline))])"

definition blockquote_repl :: "'a alphabet \<Rightarrow> 'a pymatch \<Rightarrow> 'a list option" where
  \<open>blockquote_repl A m =
     (let s_tag = tpl A ''<div class="quote">''; e_tag = tpl A ''</div>''
      in case group m 1 of
           Some triple \<Rightarrow> Some (s_tag @ triple @ e_tag)
         | None \<Rightarrow>
             (case group m 2 of
                Some single \<Rightarrow>
                  Some (s_tag @ filter (\<lambda>x. chr_of A x \<noteq> newline) single @ e_tag)
              | None \<Rightarrow> None))\<close>

definition blockquote :: "'a alphabet \<Rightarrow> 'a list \<Rightarrow> 'a list option" where
  "blockquote A input = sub A blockQuote_pattern (blockquote_repl A) input"

subsection \<open>Links\<close>

text \<open>\<^verbatim>\<open>&lt;(?P<content>http[s]?:\/\/\S+?)&gt;\<close>\<close>

definition suppresed_embed_link_pattern :: re where
  "suppresed_embed_link_pattern = seqs
     [Lit ''&lt;'',
      Grp 1 (seqs [Lit ''http'', Opt (Cls is_s), Lit ''://'', Rep False 1 None is_nonspace]),
      Lit ''&gt;'']"

definition remove_suppressed_embed_arrows :: "'a alphabet \<Rightarrow> 'a list \<Rightarrow> 'a list option" where
  "remove_suppressed_embed_arrows A input =
     sub A suppresed_embed_link_pattern (\<lambda>m. Some (expand m 1)) input"

text \<open>\<^verbatim>\<open>\[(.+)\]\([^\n\S]*?(http[s]?:\/\/[\S]+?)[^\n\S]*?\)|(http[s]?:\/\/[\S]+)\<close>\<close>

definition labelled_link :: re where
  "labelled_link = seqs
     [Lit ''['', Grp 1 (Rep True 1 None is_dot), Lit '']('',
      Rep False 0 None is_hspace,
      Grp 2 (seqs [Lit ''http'', Opt (Cls is_s), Lit ''://'', Rep False 1 None is_nonspace]),
      Rep False 0 None is_hspace, Lit '')'']"

definition bare_link :: re where
  "bare_link = Grp 3 (seqs [Lit ''http'', Opt (Cls is_s), Lit ''://'', Rep True 1 None is_nonspace])"

definition web_link_pattern :: re where
  "web_link_pattern = Alt labelled_link bare_link"

definition linkify_repl :: "'a alphabet \<Rightarrow> 'a pymatch \<Rightarrow> 'a list option" where
  \<open>linkify_repl A m =
     (let s_tag = tpl A ''<a href="''; m_tag = tpl A ''">''; e_tag = tpl A ''</a>''
      in case group m 3 of
           Some url \<Rightarrow> Some (s_tag @ url @ m_tag @ url @ e_tag)
         | None \<Rightarrow>
             (case group m 2 of
                Some url \<Rightarrow> Some (s_tag @ url @ m_tag @ expand m 1 @ e_tag)
              | None \<Rightarrow> None))\<close>

definition linkify :: "'a alphabet \<Rightarrow> 'a list \<Rightarrow> 'a list option" where
  "linkify A input = sub A web_link_pattern (linkify_repl A) input"

subsection \<open>Custom emoji\<close>

text \<open>\<^verbatim>\<open>&lt;(?P<animated>a)?:(?P<name>[0-9a-zA-Z_]{2,32}):(?P<id>[0-9]{15,21})&gt;\<close>\<close>

definition nitro_emote_pattern :: re where
  "nitro_emote_pattern = seqs
     [Lit ''&lt;'', Opt (Grp 1 (Lit ''a'')), Lit '':'',
      Grp 2 (Rep True 2 (Some 32) is_name), Lit '':'',
      Grp 3 (Rep True 15 (Some 21) is_digit), Lit ''&gt;'']"

text \<open>\<^verbatim>\<open>([a-zA-Z0-9!-;=?-~\s]*)?\s*<a?:[0-9a-zA-Z_]{2,32}:[0-9]{15,21}>\s*([a-zA-Z0-9!-;=?-~\s]*)?\<close>\<close>

definition womboji_pattern :: re where
  "womboji_pattern = seqs
     [Opt (Grp 1 (Rep True 0 None is_wtext)), Rep True 0 None is_space,
      Lit ''<'', Opt (Lit ''a''), Lit '':'', Rep True 2 (Some 32) is_name, Lit '':'',
      Rep True 15 (Some 21) is_digit, Lit ''>'', Rep True 0 None is_space,
      Opt (Grp 2 (Rep True 0 None is_wtext))]"

definition emoji_repl :: "'a alphabet \<Rightarrow> string \<Rightarrow> 'a pymatch \<Rightarrow> 'a list option" where
  \<open>emoji_repl A s_tag m =
     (let m1_tag = tpl A ''" title="''; m2_tag = tpl A ''" src="''; e_tag = tpl A ''">'';
          emoji_url =
            (if group m 1 \<noteq> None \<and> group m 1 \<noteq> Some []
             then tpl A ''https://cdn.discordapp.com/emojis/'' @ expand m 3 @ tpl A ''.gif''
             else tpl A ''https://cdn.discordapp.com/emojis/'' @ expand m 3 @ tpl A ''.png'')
      in Some (tpl A s_tag @ expand m 2 @ m1_tag @ expand m 2 @ m2_tag @ emoji_url @ e_tag))\<close>

definition emojify_repl :: "'a alphabet \<Rightarrow> 'a pymatch \<Rightarrow> 'a list option" where
  \<open>emojify_repl A m = emoji_repl A ''<img class="emoji" alt="'' m\<close>

definition wombojify_repl :: "'a alphabet \<Rightarrow> 'a pymatch \<Rightarrow> 'a list option" where
  \<open>wombojify_repl A m = emoji_repl A ''<img class="emoji emoji--large" alt="'' m\<close>

text \<open>\<^verbatim>\<open>pattern.findall\<close> for a pattern with two groups: the pair of the groups' texts, the
  empty string for a group that took no part.\<close>

definition group_text :: "string \<Rightarrow> caps \<Rightarrow> nat \<Rightarrow> string" where
  "group_text s c n = (case c n of None \<Rightarrow> [] | Some (a, b) \<Rightarrow> slice s a b)"

definition findall2 :: "re \<Rightarrow> string \<Rightarrow> (string \<times> string) list" where
  "findall2 p s = map (\<lambda>(i, j, c). (group_text s c 1, group_text s c 2)) (finditer p s)"

text \<open>The loop of \<^verbatim>\<open>emojify\<close> over the matches: large emoji unless a match has text next to it.\<close>

fun womboji_of :: "(string \<times> string) list \<Rightarrow> bool" where
  "womboji_of [] = True"
| "womboji_of (m # rest) = (if fst m \<noteq> [] \<or> snd m \<noteq> [] then False else womboji_of rest)"

definition emojify :: "'a alphabet \<Rightarrow> 'a list \<Rightarrow> string \<Rightarrow> 'a list option" where
  "emojify A input original_txt =
     (let womboji = womboji_of (findall2 womboji_pattern original_txt)
      in if womboji then sub A nitro_emote_pattern (wombojify_repl A) input
         else sub A nitro_emote_pattern (emojify_repl A) input)"

subsection \<open>The pipeline\<close>

definition markdown :: "'a alphabet \<Rightarrow> 'a list \<Rightarrow> 'a list option" where
  "markdown A input = do {
     let output = escape A input;
     output \<leftarrow> codeblock A output;
     output \<leftarrow> inline_codeblock A output;
     output \<leftarrow> remove_suppressed_embed_arrows A output;
     output \<leftarrow> blockquote A output;
     output \<leftarrow> spoiler A output;
     output \<leftarrow> strikethrough A output;
     output \<leftarrow> bold A output;
     output \<leftarrow> underline A output;
     output \<leftarrow> italics A output;
     output \<leftarrow> linkify A output;
     output \<leftarrow> emojify A output (text_of A input);
     remove_escaped_symbol A output
   }"

section \<open>The older copy of the engine in \<^verbatim>\<open>src/events/bulkMessageDelete.py\<close>\<close>

text \<open>
  The second \<^verbatim>\<open>DiscordMarkdown\<close> class has the same patterns and callbacks for code blocks,
  inline code, spoiler, strikethrough, bold, underline and the two symbol passes, so those
  definitions are shared. It calls \<^verbatim>\<open>subn\<close> and drops the count. It differs in four places:
  the call of \<^verbatim>\<open>escape\<close> is commented out, the block quote pattern looks for \<^verbatim>\<open>>\<close> itself,
  italics is two substitutions, one after the other, and there is no pass for suppressed
  links, links or emoji.
\<close>







section \<open>Where a character of the output comes from\<close>

text \<open>
  To follow the characters of the input through the pipeline, the buffer can carry with
  every character its origin: the raw input, or text that the engine wrote (entities and
  tags). The patterns only see the characters.
\<close>

datatype origin = Raw | Engine

definition traced :: "(char \<times> origin) alphabet" where
  "traced = \<lparr>chr_of = fst, emit = (\<lambda>c. (c, Engine))\<rparr>"

definition raw :: "string \<Rightarrow> (char \<times> origin) list" where
  "raw s = map (\<lambda>c. (c, Raw)) s"

definition html_special :: "char \<Rightarrow> bool" where
  "html_special c \<longleftrightarrow> c = CHR ''<'' \<or> c = CHR ''>'' \<or> c = CHR ''&''"

text \<open>No raw character of the buffer is one of \<^verbatim>\<open><\<close>, \<^verbatim>\<open>>\<close>, \<^verbatim>\<open>&\<close>.\<close>

definition html_safe :: "(char \<times> origin) list \<Rightarrow> bool" where
  "html_safe buf \<longleftrightarrow> \<not> (\<exists>x \<in> set buf. snd x = Raw \<and> html_special (fst x))"

text \<open>A pass keeps the buffer safe when it takes a safe buffer to a safe buffer.\<close>

definition keeps_safe :: "((char \<times> origin) list \<Rightarrow> (char \<times> origin) list option) \<Rightarrow> bool" where
  "keeps_safe pass \<longleftrightarrow> (\<forall>buf out. html_safe buf \<and> pass buf = Some out \<longrightarrow> html_safe out)"

section \<open>Analyses and reference functions used in the proofs\<close>

text \<open>\<open>sets r\<close>: groups that take part in every match of \<open>r\<close>.
  \<open>needs r X\<close>: every match of \<open>r\<close> contains a character of \<open>X\<close>.\<close>

fun sets :: "re \<Rightarrow> nat set" where
  "sets (Grp n a) = insert n (sets a)"
| "sets (Seq a b) = sets a \<union> sets b"
| "sets (Alt a b) = sets a \<inter> sets b"
| "sets _ = {}"

fun needs :: "re \<Rightarrow> char set \<Rightarrow> bool" where
  "needs (Lit t) X = (set t \<inter> X \<noteq> {})"
| "needs (Seq a b) X = (needs a X \<or> needs b X)"
| "needs (Alt a b) X = (needs a X \<and> needs b X)"
| "needs (Grp n a) X = needs a X"
| "needs _ X = False"

text \<open>The substitution seen from a position of the buffer.\<close>

definition sub_from :: "'a alphabet \<Rightarrow> re \<Rightarrow> ('a pymatch \<Rightarrow> 'a list option) \<Rightarrow> 'a list \<Rightarrow> nat
    \<Rightarrow> 'a list option" where
  "sub_from A p repl buf pos = splice repl buf pos (finditer_from p (text_of A buf) pos)"

text \<open>The protect and unprotect transforms as the specification words them: a backslash
  before every symbol, and one backslash removed from each escaped symbol, left to right.\<close>

definition protect_symbols :: "string \<Rightarrow> string" where
  "protect_symbols s = concat (map (\<lambda>c. if is_symbol c then [backslash, c] else [c]) s)"

fun unprotect :: "string \<Rightarrow> string" where
  "unprotect (x # y # zs) =
     (if x = backslash \<and> is_symbol y then y # unprotect zs else x # unprotect (y # zs))"
| "unprotect [x] = [x]"
| "unprotect [] = []"

definition no_escaped_symbol :: "string \<Rightarrow> bool" where
  "no_escaped_symbol s \<longleftrightarrow>
     \<not> (\<exists>i. Suc i < length s \<and> s ! i = backslash \<and> is_symbol (s ! Suc i))"

text \<open>\<open>has_sub s t\<close>: the text \<open>t\<close> occurs in \<open>s\<close>.\<close>

fun has_sub :: "string \<Rightarrow> string \<Rightarrow> bool" where
  "has_sub [] t = (t = [])"
| "has_sub (x # xs) t = (take (length t) (x # xs) = t \<or> has_sub xs t)"

text \<open>A text is guarded when every symbol other than the backslash stands right after a
  backslash, as in a symbol-protected body. \<open>blocked r\<close> is a sufficient condition for \<open>r\<close> to
  have no match in a guarded text: a literal with a symbol that does not follow a backslash,
  or a look-behind for the backslash right before a symbol.\<close>

definition guarded :: "string \<Rightarrow> bool" where
  "guarded s \<longleftrightarrow>
     \<not> (\<exists>k < length s. is_symbol (s ! k) \<and> s ! k \<noteq> backslash \<and> \<not> (0 < k \<and> s ! (k - 1) = backslash))"

definition adjacent_symbol :: "string \<Rightarrow> bool" where
  "adjacent_symbol t \<longleftrightarrow>
     (\<exists>m. Suc m < length t \<and> t ! m \<noteq> backslash \<and> is_symbol (t ! Suc m) \<and> t ! Suc m \<noteq> backslash)"

fun starts_sym :: "re \<Rightarrow> bool" where
  "starts_sym (Lit t) = (case t of [] \<Rightarrow> False | d # _ \<Rightarrow> is_symbol d \<and> d \<noteq> backslash)"
| "starts_sym (Seq a b) = starts_sym a"
| "starts_sym (Grp n a) = starts_sym a"
| "starts_sym _ = False"

fun blocked :: "re \<Rightarrow> bool" where
  "blocked (Lit t) = adjacent_symbol t"
| "blocked (Seq a b) = (blocked a \<or> blocked b \<or> (a = NotBehind backslash \<and> starts_sym b))"
| "blocked (Alt a b) = (blocked a \<and> blocked b)"
| "blocked (Grp n a) = blocked a"
| "blocked _ = False"


text \<open>\<open>grps r\<close>: the groups that occur in \<open>r\<close>.\<close>

fun grps :: "re \<Rightarrow> nat set" where
  "grps (Grp n a) = insert n (grps a)"
| "grps (Seq a b) = grps a \<union> grps b"
| "grps (Alt a b) = grps a \<union> grps b"
| "grps (Opt a) = grps a"
| "grps _ = {}"

text \<open>\<open>hom f A B\<close>: the map \<open>f\<close> of buffer elements keeps the characters and the emitted
  elements, as forgetting the origin does.\<close>

definition hom :: "('a \<Rightarrow> 'b) \<Rightarrow> 'a alphabet \<Rightarrow> 'b alphabet \<Rightarrow> bool" where
  "hom f A B \<longleftrightarrow> (\<forall>x. chr_of B (f x) = chr_of A x) \<and> (\<forall>c. f (emit A c) = emit B c)"

section \<open>Properties of the matcher\<close>

lemma starts_with_bound:
  assumes "starts_with s i t" and "i \<le> length s"
  shows "i + length t \<le> length s"
proof -
  from assms(1) have "length (take (length t) (drop i s)) = length t"
    by (simp add: starts_with_def)
  then have "length t \<le> length s - i" by simp
  with assms(2) show ?thesis by simp
qed

lemma run_bound: "i \<le> length s \<Longrightarrow> i + run p s i hi \<le> length s"
proof -
  have "length (takeWhile p (drop i s)) \<le> length (drop i s)"
    by (rule length_takeWhile_le)
  moreover assume "i \<le> length s"
  ultimately show ?thesis
    by (auto simp: run_def Let_def split: option.splits)
qed

lemma ms_bounds:
  "(j, c') \<in> set (ms r s (i, c)) \<Longrightarrow> i \<le> length s \<Longrightarrow> i \<le> j \<and> j \<le> length s"
proof (induction r arbitrary: i c j c')
  case (Lit t)
  then show ?case by (auto split: if_splits dest: starts_with_bound)
next
  case (Cls p)
  then show ?case by (auto split: if_splits)
next
  case (Rep g lo hi p)
  then show ?case using run_bound [of i s p hi]
    by (auto simp: Let_def split: if_splits)
next
  case (Seq a b)
  from Seq.prems obtain k d where 1: "(k, d) \<in> set (ms a s (i, c))" and 2: "(j, c') \<in> set (ms b s (k, d))"
    by auto
  from Seq.IH(1) [OF 1 Seq.prems(2)] have "i \<le> k" "k \<le> length s" by simp_all
  with Seq.IH(2) [OF 2] show ?case by simp
next
  case (Alt a b)
  from Alt.prems have "(j, c') \<in> set (ms a s (i, c)) \<or> (j, c') \<in> set (ms b s (i, c))" by simp
  with Alt.IH Alt.prems(2) show ?case by blast
next
  case (Opt a)
  from Opt.prems have "(j, c') \<in> set (ms a s (i, c)) \<or> (j, c') = (i, c)" by auto
  with Opt.IH Opt.prems(2) show ?case by blast
next
  case (Grp n a)
  from Grp.prems obtain d where "(j, d) \<in> set (ms a s (i, c))" by auto
  with Grp.IH Grp.prems(2) show ?case by blast
next
  case (Backref n)
  then show ?case by (auto split: option.splits if_splits dest: starts_with_bound)
next
  case (NotBehind x)
  then show ?case by (auto split: if_splits)
next
  case (NotAhead x)
  then show ?case by (auto split: if_splits)
next
  case Bol
  then show ?case by (auto split: if_splits)
qed


lemma ms_caps_mono:
  "(j, c') \<in> set (ms r s (i, c)) \<Longrightarrow> c n \<noteq> None \<Longrightarrow> c' n \<noteq> None"
proof (induction r arbitrary: i c j c')
  case (Lit t)
  then show ?case by (auto split: if_splits)
next
  case (Cls p)
  then show ?case by (auto split: if_splits)
next
  case (Rep g lo hi p)
  then show ?case by (auto simp: Let_def split: if_splits)
next
  case (Seq a b)
  from Seq.prems obtain k d where 1: "(k, d) \<in> set (ms a s (i, c))" and 2: "(j, c') \<in> set (ms b s (k, d))"
    by auto
  from Seq.IH(1) [OF 1 Seq.prems(2)] have "d n \<noteq> None" .
  with Seq.IH(2) [OF 2] show ?case .
next
  case (Alt a b)
  from Alt.prems have "(j, c') \<in> set (ms a s (i, c)) \<or> (j, c') \<in> set (ms b s (i, c))" by simp
  with Alt.IH Alt.prems(2) show ?case by blast
next
  case (Opt a)
  from Opt.prems have "(j, c') \<in> set (ms a s (i, c)) \<or> (j, c') = (i, c)" by auto
  with Opt.IH Opt.prems(2) show ?case by blast
next
  case (Grp m a)
  from Grp.prems obtain d where d: "(j, d) \<in> set (ms a s (i, c))" and c': "c' = d(m \<mapsto> (i, j))" by auto
  from Grp.IH [OF d Grp.prems(2)] c' show ?case by simp
next
  case (Backref m)
  then show ?case by (auto split: option.splits if_splits)
next
  case (NotBehind x)
  then show ?case by (auto split: if_splits)
next
  case (NotAhead x)
  then show ?case by (auto split: if_splits)
next
  case Bol
  then show ?case by (auto split: if_splits)
qed

lemma ms_sets:
  "(j, c') \<in> set (ms r s (i, c)) \<Longrightarrow> n \<in> sets r \<Longrightarrow> c' n \<noteq> None"
proof (induction r arbitrary: i c j c')
  case (Seq a b)
  from Seq.prems obtain k d where 1: "(k, d) \<in> set (ms a s (i, c))" and 2: "(j, c') \<in> set (ms b s (k, d))"
    by auto
  from Seq.prems(2) have "n \<in> sets a \<or> n \<in> sets b" by simp
  then show ?case
  proof
    assume "n \<in> sets a"
    from Seq.IH(1) [OF 1 this] have "d n \<noteq> None" .
    with ms_caps_mono [OF 2] show ?thesis .
  next
    assume "n \<in> sets b"
    from Seq.IH(2) [OF 2 this] show ?thesis .
  qed
next
  case (Alt a b)
  from Alt.prems have "(j, c') \<in> set (ms a s (i, c)) \<or> (j, c') \<in> set (ms b s (i, c))" by simp
  moreover from Alt.prems(2) have "n \<in> sets a" "n \<in> sets b" by simp_all
  ultimately show ?case using Alt.IH by blast
next
  case (Grp m a)
  from Grp.prems obtain d where d: "(j, d) \<in> set (ms a s (i, c))" and c': "c' = d(m \<mapsto> (i, j))" by auto
  show ?case
  proof (cases "n = m")
    case True
    with c' show ?thesis by simp
  next
    case False
    with Grp.prems(2) have "n \<in> sets a" by simp
    from Grp.IH [OF d this] c' False show ?thesis by simp
  qed
qed simp_all

lemma starts_with_nth:
  assumes "starts_with s i t" and "m < length t"
  shows "s ! (i + m) = t ! m"
proof -
  from assms(1) have eq: "take (length t) (drop i s) = t" by (simp add: starts_with_def)
  then have len: "length (take (length t) (drop i s)) = length t" by simp
  then have "i + m < length s" using assms(2) by simp
  have "t ! m = take (length t) (drop i s) ! m" by (simp add: eq)
  also have "\<dots> = drop i s ! m" using assms(2) by simp
  also have "\<dots> = s ! (i + m)" using \<open>i + m < length s\<close> by simp
  finally show ?thesis by simp
qed

lemma ms_needs:
  "(j, c') \<in> set (ms r s (i, c)) \<Longrightarrow> needs r X \<Longrightarrow> i \<le> length s
   \<Longrightarrow> \<exists>k. i \<le> k \<and> k < j \<and> s ! k \<in> X"
proof (induction r arbitrary: i c j c')
  case (Lit t)
  from Lit.prems(1) have sw: "starts_with s i t" and j: "j = i + length t"
    by (auto split: if_splits)
  from Lit.prems(2) obtain x where "x \<in> set t" "x \<in> X" by auto
  then obtain m where m: "m < length t" "t ! m = x" by (auto simp: in_set_conv_nth)
  from starts_with_nth [OF sw m(1)] m \<open>x \<in> X\<close> j show ?case
    by (intro exI [of _ "i + m"]) simp
next
  case (Seq a b)
  from Seq.prems obtain k d where 1: "(k, d) \<in> set (ms a s (i, c))" and 2: "(j, c') \<in> set (ms b s (k, d))"
    by auto
  from ms_bounds [OF 1 Seq.prems(3)] have ik: "i \<le> k" "k \<le> length s" by simp_all
  from ms_bounds [OF 2 ik(2)] have kj: "k \<le> j" by simp
  from Seq.prems(2) have "needs a X \<or> needs b X" by simp
  then show ?case
  proof
    assume "needs a X"
    from Seq.IH(1) [OF 1 this Seq.prems(3)] kj show ?thesis by (meson less_le_trans)
  next
    assume "needs b X"
    from Seq.IH(2) [OF 2 this ik(2)] ik(1) show ?thesis by (meson le_trans)
  qed
next
  case (Alt a b)
  from Alt.prems have "(j, c') \<in> set (ms a s (i, c)) \<or> (j, c') \<in> set (ms b s (i, c))" by simp
  moreover from Alt.prems(2) have "needs a X" "needs b X" by simp_all
  ultimately show ?case using Alt.IH Alt.prems(3) by blast
next
  case (Grp m a)
  from Grp.prems obtain d where d: "(j, d) \<in> set (ms a s (i, c))" by auto
  from Grp.prems(2) have "needs a X" by simp
  from Grp.IH [OF d this Grp.prems(3)] show ?case .
qed simp_all

lemma ms_inert:
  assumes "needs r X" and "set s \<inter> X = {}" and "i \<le> length s"
  shows "ms r s (i, c) = []"
proof (rule ccontr)
  assume "ms r s (i, c) \<noteq> []"
  then obtain j c' where m: "(j, c') \<in> set (ms r s (i, c))"
    by (cases "ms r s (i, c)") auto
  from ms_needs [OF m assms(1) assms(3)] obtain k where k: "i \<le> k" "k < j" "s ! k \<in> X" by blast
  from ms_bounds [OF m assms(3)] k have "k < length s" by simp
  then have "s ! k \<in> set s" by simp
  with k(3) assms(2) show False by blast
qed

lemma first_match_inert:
  assumes "needs r X" and "set s \<inter> X = {}" and "\<forall>i \<in> set is. i \<le> length s"
  shows "first_match r s is = None"
  using assms(3) by (induction "is") (simp_all add: match_at_def ms_inert [OF assms(1) assms(2)])

lemma search_inert:
  assumes "needs r X" and "set s \<inter> X = {}"
  shows "search r s pos = None"
  unfolding search_def by (rule first_match_inert [OF assms]) (auto simp del: upt_Suc)

lemma finditer_inert:
  assumes "needs r X" and "set s \<inter> X = {}"
  shows "finditer r s = []"
  by (simp add: finditer_def finditer_from.simps search_inert [OF assms])

lemma sub_inert:
  assumes "needs r X" and "set (text_of A buf) \<inter> X = {}"
  shows "sub A r repl buf = Some buf"
  by (simp add: sub_def finditer_inert [OF assms])

section \<open>Properties of substitution\<close>

lemma sub_eq_sub_from: "sub A p repl buf = sub_from A p repl buf 0"
  by (simp add: sub_def sub_from_def finditer_def)

lemma match_at_start: "match_at p s pos = Some (i, j, c) \<Longrightarrow> i = pos"
  by (auto simp: match_at_def split: list.splits)

lemma search_unfold:
  assumes "pos \<le> length s"
  shows "search p s pos =
    (case match_at p s pos of
       None \<Rightarrow> (if pos < length s then search p s (Suc pos) else None)
     | Some m \<Rightarrow> Some m)"
proof -
  from assms have "[pos ..< Suc (length s)] = pos # [Suc pos ..< Suc (length s)]"
    by (simp add: upt_conv_Cons del: upt_Suc)
  moreover have "\<not> pos < length s \<Longrightarrow> [Suc pos ..< Suc (length s)] = []"
    by simp
  ultimately show ?thesis
    by (auto simp: search_def simp del: upt_Suc split: option.splits)
qed

lemma finditer_from_first:
  "finditer_from p s pos = m # rest \<Longrightarrow> pos \<le> fst m"
  by (subst (asm) finditer_from.simps) (auto split: option.splits dest: search_bounds)

lemma splice_skip:
  assumes "pos < length buf" and "L = [] \<or> pos < fst (hd L)"
  shows "splice repl buf pos L = map_option ((#) (buf ! pos)) (splice repl buf (Suc pos) L)"
proof (cases L)
  case Nil
  with assms(1) show ?thesis by (simp add: Cons_nth_drop_Suc)
next
  case (Cons m rest)
  obtain i j c where m: "m = (i, j, c)" by (cases m)
  with Cons assms(2) have "pos < i" by simp
  with assms(1) have "slice buf pos i = buf ! pos # slice buf (Suc pos) i"
    by (simp add: slice_def Cons_nth_drop_Suc Suc_diff_Suc take_Suc_Cons [symmetric] del: take_Suc_Cons)
  with Cons m show ?thesis by (simp split: option.splits)
qed

lemma sub_from_skip:
  assumes "pos < length buf" and "match_at p (text_of A buf) pos = None"
  shows "sub_from A p repl buf pos = map_option ((#) (buf ! pos)) (sub_from A p repl buf (Suc pos))"
proof -
  let ?s = "text_of A buf"
  from assms(1) have len: "pos < length ?s" by (simp add: text_of_def)
  then have "search p ?s pos = search p ?s (Suc pos)"
    using search_unfold [of pos ?s p] assms(2) by simp
  then have eq: "finditer_from p ?s pos = finditer_from p ?s (Suc pos)"
    by (subst finditer_from.simps, subst (2) finditer_from.simps) simp
  have "finditer_from p ?s (Suc pos) = [] \<or> pos < fst (hd (finditer_from p ?s (Suc pos)))"
  proof (cases "finditer_from p ?s (Suc pos)")
    case (Cons m rest)
    from finditer_from_first [OF this] Cons show ?thesis by simp
  qed simp
  from splice_skip [OF assms(1) this] eq show ?thesis by (simp add: sub_from_def)
qed

lemma sub_from_match:
  assumes "pos \<le> length buf" and "match_at p (text_of A buf) pos = Some (i, j, c)" and "pos < j"
  shows "sub_from A p repl buf pos =
    (case repl \<lparr>subject = buf, m_start = pos, m_end = j, m_caps = c\<rparr> of
       None \<Rightarrow> None
     | Some r \<Rightarrow> map_option ((@) r) (sub_from A p repl buf j))"
proof -
  let ?s = "text_of A buf"
  from assms(1) have len: "pos \<le> length ?s" by (simp add: text_of_def)
  from match_at_start [OF assms(2)] have i: "i = pos" .
  have "search p ?s pos = Some (pos, j, c)"
    using search_unfold [OF len, of p] assms(2) i by simp
  then have "finditer_from p ?s pos = (pos, j, c) # finditer_from p ?s j"
    using assms(3) by (subst finditer_from.simps) simp
  then show ?thesis
    by (simp add: sub_from_def slice_def split: option.splits)
qed

lemma sub_from_end:
  assumes "length buf \<le> pos" and "match_at p (text_of A buf) pos = None"
  shows "sub_from A p repl buf pos = Some []"
proof -
  let ?s = "text_of A buf"
  have "search p ?s pos = None"
  proof (cases "pos = length ?s")
    case True
    then show ?thesis using search_unfold [of pos ?s p] assms(2) by simp
  next
    case False
    with assms(1) have "length ?s < pos" by (simp add: text_of_def)
    then show ?thesis by (simp add: search_def)
  qed
  then have "finditer_from p ?s pos = []"
    by (subst finditer_from.simps) simp
  with assms(1) show ?thesis by (simp add: sub_from_def)
qed

text \<open>Every match that the scan reports is a success of the matcher at its start.\<close>

lemma first_match_sound:
  "first_match p s is = Some (i, j, c) \<Longrightarrow> i \<in> set is \<and> ms p s (i, Map.empty) \<noteq> [] \<and> (j, c) = hd (ms p s (i, Map.empty))"
  by (induction "is") (auto simp: match_at_def split: option.splits list.splits)

lemma search_sound:
  assumes "search p s pos = Some (i, j, c)"
  shows "pos \<le> i \<and> i \<le> length s \<and> (j, c) \<in> set (ms p s (i, Map.empty))"
proof -
  from assms have "first_match p s [pos ..< Suc (length s)] = Some (i, j, c)"
    by (simp add: search_def)
  from first_match_sound [OF this]
  have "ms p s (i, Map.empty) \<noteq> []" and "(j, c) = hd (ms p s (i, Map.empty))" by simp_all
  then have "(j, c) \<in> set (ms p s (i, Map.empty))" by simp
  with search_bounds [OF assms] show ?thesis by simp
qed

lemma finditer_from_sound:
  "(i, j, c) \<in> set (finditer_from p s pos)
   \<Longrightarrow> pos \<le> i \<and> i \<le> length s \<and> (j, c) \<in> set (ms p s (i, Map.empty))"
proof (induction p s pos rule: finditer_from.induct)
  case (1 p s pos)
  show ?case
  proof (cases "search p s pos")
    case None
    with "1.prems" show ?thesis by (simp add: finditer_from.simps [of p s pos])
  next
    case (Some m)
    obtain i' j' c' where m: "m = (i', j', c')" by (cases m)
    from search_sound [OF Some [unfolded m]]
    have s: "pos \<le> i'" "i' \<le> length s" "(j', c') \<in> set (ms p s (i', Map.empty))" by simp_all
    from ms_bounds [OF s(3) s(2)] have ij: "i' \<le> j'" by simp
    from "1.prems" Some m
    have "(i, j, c) = (i', j', c')
        \<or> (i' < j' \<and> (i, j, c) \<in> set (finditer_from p s j'))
        \<or> (\<not> i' < j' \<and> (i, j, c) \<in> set (finditer_from p s (Suc i')))"
      by (auto simp: finditer_from.simps [of p s pos] split: if_splits)
    then show ?thesis
    proof (elim disjE conjE)
      assume "(i, j, c) = (i', j', c')"
      with s show ?thesis by simp
    next
      assume a: "i' < j'" "(i, j, c) \<in> set (finditer_from p s j')"
      from "1.IH"(1) [OF Some m [symmetric] refl a(1) a(2)] s(1) ij show ?thesis by simp
    next
      assume a: "\<not> i' < j'" "(i, j, c) \<in> set (finditer_from p s (Suc i'))"
      from "1.IH"(2) [OF Some m [symmetric] refl a(1) a(2)] s(1) show ?thesis by simp
    qed
  qed
qed

lemma finditer_sound:
  "(i, j, c) \<in> set (finditer p s) \<Longrightarrow> i \<le> length s \<and> (j, c) \<in> set (ms p s (i, Map.empty))"
  using finditer_from_sound [of i j c p s 0] by (simp add: finditer_def)

section \<open>Symbol protection\<close>

lemma is_symbol_backslash: "is_symbol backslash"
  by (simp add: is_symbol_def is_alnum_def is_lower_def is_upper_def is_digit_def is_space_def
      in_range_def backslash_def)

lemma match_at_symbols:
  "match_at symbols_pattern s pos =
     (if pos < length s \<and> is_symbol (s ! pos) then Some (pos, Suc pos, [1 \<mapsto> (pos, Suc pos)])
      else None)"
  by (simp add: match_at_def symbols_pattern_def)

lemma starts_with_single:
  "starts_with s pos [x] \<longleftrightarrow> pos < length s \<and> s ! pos = x"
proof (cases "pos < length s")
  case True
  then have "drop pos s = s ! pos # drop (Suc pos) s" by (simp add: Cons_nth_drop_Suc)
  then show ?thesis using True by (simp add: starts_with_def)
next
  case False
  then show ?thesis by (simp add: starts_with_def)
qed

lemma match_at_escaped_symbols:
  "match_at escaped_symbols_pattern s pos =
     (if Suc pos < length s \<and> s ! pos = backslash \<and> is_symbol (s ! Suc pos)
      then Some (pos, Suc (Suc pos), [1 \<mapsto> (Suc pos, Suc (Suc pos))])
      else None)"
  by (auto simp: match_at_def escaped_symbols_pattern_def starts_with_single)

lemma sub_from_escape_symbols:
  "pos \<le> length s \<Longrightarrow>
   sub_from plain symbols_pattern (escape_symbols_repl plain) s pos = Some (protect_symbols (drop pos s))"
proof (induction "length s - pos" arbitrary: pos)
  case 0
  then have "pos = length s" by simp
  then show ?case
    using sub_from_end [of s pos symbols_pattern plain]
    by (simp add: match_at_symbols text_of_def plain_def protect_symbols_def)
next
  case (Suc n)
  then have lt: "pos < length s" and n: "n = length s - Suc pos" by simp_all
  have tof: "text_of plain s = s" by (simp add: text_of_def plain_def)
  from lt have dr: "drop pos s = s ! pos # drop (Suc pos) s" by (simp add: Cons_nth_drop_Suc)
  from Suc.hyps(1) [OF n] lt
  have IH: "sub_from plain symbols_pattern (escape_symbols_repl plain) s (Suc pos)
      = Some (protect_symbols (drop (Suc pos) s))" by simp
  show ?case
  proof (cases "is_symbol (s ! pos)")
    case True
    with lt have m: "match_at symbols_pattern (text_of plain s) pos
        = Some (pos, Suc pos, [1 \<mapsto> (pos, Suc pos)])"
      by (simp add: match_at_symbols tof)
    have sl: "slice s pos (Suc pos) = [s ! pos]"
      using lt by (simp add: slice_def dr)
    show ?thesis
      using sub_from_match [OF less_imp_le [OF lt] m, of "escape_symbols_repl plain"] IH True
      by (simp add: escape_symbols_repl_def group_def sl tpl_def plain_def protect_symbols_def dr)
  next
    case False
    with lt have m: "match_at symbols_pattern (text_of plain s) pos = None"
      by (simp add: match_at_symbols tof)
    show ?thesis
      using sub_from_skip [OF lt m, of "escape_symbols_repl plain"] IH False
      by (simp add: protect_symbols_def dr)
  qed
qed

lemma escape_symbols_plain: "escape_symbols plain s = Some (protect_symbols s)"
  using sub_from_escape_symbols [of 0 s] by (simp add: escape_symbols_def sub_eq_sub_from)

lemma sub_from_remove_escaped:
  "pos \<le> length s \<Longrightarrow>
   sub_from plain escaped_symbols_pattern remove_escaped_symbol_repl s pos = Some (unprotect (drop pos s))"
proof (induction "length s - pos" arbitrary: pos rule: less_induct)
  case less
  have tof: "text_of plain s = s" by (simp add: text_of_def plain_def)
  show ?case
  proof (cases "pos < length s")
    case False
    with less.prems have "pos = length s" by simp
    then show ?thesis
      using sub_from_end [of s pos escaped_symbols_pattern plain]
      by (simp add: match_at_escaped_symbols tof)
  next
    case lt: True
    then have dr: "drop pos s = s ! pos # drop (Suc pos) s" by (simp add: Cons_nth_drop_Suc)
    from lt less.hyps [of "Suc pos"]
    have IH1: "sub_from plain escaped_symbols_pattern remove_escaped_symbol_repl s (Suc pos)
        = Some (unprotect (drop (Suc pos) s))" by simp
    show ?thesis
    proof (cases "Suc pos < length s \<and> s ! pos = backslash \<and> is_symbol (s ! Suc pos)")
      case True
      then have lt2: "Suc pos < length s" by simp
      then have dr2: "drop (Suc pos) s = s ! Suc pos # drop (Suc (Suc pos)) s"
        by (simp add: Cons_nth_drop_Suc)
      from True have m: "match_at escaped_symbols_pattern (text_of plain s) pos
          = Some (pos, Suc (Suc pos), [1 \<mapsto> (Suc pos, Suc (Suc pos))])"
        by (simp add: match_at_escaped_symbols tof)
      from lt2 less.hyps [of "Suc (Suc pos)"]
      have IH2: "sub_from plain escaped_symbols_pattern remove_escaped_symbol_repl s (Suc (Suc pos))
          = Some (unprotect (drop (Suc (Suc pos)) s))" by simp
      have sl: "slice s (Suc pos) (Suc (Suc pos)) = [s ! Suc pos]"
        by (simp add: slice_def dr2)
      show ?thesis
        using sub_from_match [OF less_imp_le [OF lt] m, of remove_escaped_symbol_repl] IH2 True
        by (simp add: remove_escaped_symbol_repl_def group_def sl dr dr2)
    next
      case False
      then have m: "match_at escaped_symbols_pattern (text_of plain s) pos = None"
        by (simp add: match_at_escaped_symbols tof)
      have "unprotect (drop pos s) = s ! pos # unprotect (drop (Suc pos) s)"
      proof (cases "Suc pos < length s")
        case True
        then have dr2: "drop (Suc pos) s = s ! Suc pos # drop (Suc (Suc pos)) s"
          by (simp add: Cons_nth_drop_Suc)
        with False True show ?thesis by (auto simp add: dr)
      next
        case False
        then have "drop (Suc pos) s = []" by simp
        then show ?thesis by (simp add: dr)
      qed
      then show ?thesis
        using sub_from_skip [OF lt m, of remove_escaped_symbol_repl] IH1 by simp
    qed
  qed
qed

lemma remove_escaped_symbol_plain: "remove_escaped_symbol plain s = Some (unprotect s)"
  using sub_from_remove_escaped [of 0 s] by (simp add: remove_escaped_symbol_def sub_eq_sub_from)

lemma unprotect_nonsymbol:
  "\<not> is_symbol x \<Longrightarrow> unprotect (x # ys) = x # unprotect ys"
  using is_symbol_backslash by (cases ys) auto

lemma unprotect_protect: "unprotect (protect_symbols s) = s"
proof (induction s)
  case Nil
  show ?case by (simp add: protect_symbols_def)
next
  case (Cons x xs)
  then have IH: "unprotect (protect_symbols xs) = xs" .
  have ps: "protect_symbols (x # xs) = (if is_symbol x then [backslash, x] else [x]) @ protect_symbols xs"
    by (simp add: protect_symbols_def)
  show ?case
  proof (cases "is_symbol x")
    case True
    then show ?thesis by (simp add: ps IH)
  next
    case False
    then show ?thesis by (simp add: ps IH unprotect_nonsymbol)
  qed
qed

text \<open>
  Claim C3. For every string without a backslash that stands immediately before a symbol (a
  character that is neither alphanumeric nor white space), unprotecting the protected string
  gives the string back: \<^verbatim>\<open>remove_escaped_symbol(escape_symbols(s)) == s\<close>. Here
  \<^verbatim>\<open>escape_symbols\<close> puts exactly one backslash before every symbol and nothing else, and
  \<^verbatim>\<open>remove_escaped_symbol\<close> removes exactly one backslash from each escaped symbol, scanning
  from the left.
\<close>

theorem protect_unprotect_round_trip:
  assumes "no_escaped_symbol s"
  shows "escape_symbols plain s = Some (protect_symbols s)
    \<and> remove_escaped_symbol plain (protect_symbols s) = Some s
    \<and> Option.bind (escape_symbols plain s) (remove_escaped_symbol plain) = Some s
    \<and> (\<forall>t. remove_escaped_symbol plain t = Some (unprotect t))"
  by (simp add: escape_symbols_plain remove_escaped_symbol_plain unprotect_protect)

theorem protect_unprotect_round_trip_witness:
  "no_escaped_symbol ''a*b_c''
   \<and> escape_symbols plain ''a*b_c'' = Some [CHR ''a'', backslash, CHR ''*'', CHR ''b'', backslash, CHR ''_'', CHR ''c'']
   \<and> Option.bind (escape_symbols plain ''a*b_c'') (remove_escaped_symbol plain) = Some ''a*b_c''"
proof -
  have h: "no_escaped_symbol ''a*b_c''"
    by (auto simp: no_escaped_symbol_def backslash_def nth_Cons' less_Suc_eq)
  have ps: "protect_symbols ''a*b_c'' = [CHR ''a'', backslash, CHR ''*'', CHR ''b'', backslash, CHR ''_'', CHR ''c'']"
    by (simp add: protect_symbols_def is_symbol_def is_alnum_def is_lower_def is_upper_def
        is_digit_def is_space_def in_range_def)
  from protect_unprotect_round_trip [OF h]
  have a: "escape_symbols plain ''a*b_c'' = Some (protect_symbols ''a*b_c'')"
    and b: "Option.bind (escape_symbols plain ''a*b_c'') (remove_escaped_symbol plain) = Some ''a*b_c''"
    by blast+
  from h a [unfolded ps] b show ?thesis by blast
qed

section \<open>Passes that find nothing to rewrite\<close>

text \<open>Every pattern of the engine contains a literal character; on a buffer without that
  character the pass returns the buffer unchanged.\<close>

lemma text_of_plain: "text_of plain buf = buf"
  by (simp add: text_of_def plain_def)

lemma tpl_plain: "tpl plain t = t"
  by (simp add: tpl_def plain_def)

lemma codeblock_inert:
  "backtick \<notin> set (text_of A buf) \<Longrightarrow> codeblock A buf = Some buf"
  unfolding codeblock_def
  by (rule sub_inert [where X = "{backtick}"]) (simp_all add: codeblock_pattern_def fence_def)

lemma inline_codeblock_inert:
  "backtick \<notin> set (text_of A buf) \<Longrightarrow> inline_codeblock A buf = Some buf"
  unfolding inline_codeblock_def
  by (rule sub_inert [where X = "{backtick}"]) (simp_all add: inlinecodeblock_pattern_def)

lemma remove_suppressed_embed_arrows_inert:
  "CHR ''&'' \<notin> set (text_of A buf) \<Longrightarrow> remove_suppressed_embed_arrows A buf = Some buf"
  unfolding remove_suppressed_embed_arrows_def
  by (rule sub_inert [where X = "{CHR ''&''}"]) (simp_all add: suppresed_embed_link_pattern_def)

lemma blockquote_inert:
  "CHR ''&'' \<notin> set (text_of A buf) \<Longrightarrow> blockquote A buf = Some buf"
  unfolding blockquote_def
  by (rule sub_inert [where X = "{CHR ''&''}"]) (simp_all add: blockQuote_pattern_def)

lemma spoiler_inert:
  "CHR ''|'' \<notin> set (text_of A buf) \<Longrightarrow> spoiler A buf = Some buf"
  unfolding spoiler_def
  by (rule sub_inert [where X = "{CHR ''|''}"]) (simp_all add: spoiler_pattern_def)

lemma strikethrough_inert:
  "CHR ''~'' \<notin> set (text_of A buf) \<Longrightarrow> strikethrough A buf = Some buf"
  unfolding strikethrough_def
  by (rule sub_inert [where X = "{CHR ''~''}"]) (simp_all add: strikethrough_pattern_def)

lemma bold_inert:
  "CHR ''*'' \<notin> set (text_of A buf) \<Longrightarrow> bold A buf = Some buf"
  unfolding bold_def
  by (rule sub_inert [where X = "{CHR ''*''}"]) (simp_all add: bold_pattern_def)

lemma underline_inert:
  "CHR ''_'' \<notin> set (text_of A buf) \<Longrightarrow> underline A buf = Some buf"
  unfolding underline_def
  by (rule sub_inert [where X = "{CHR ''_''}"]) (simp_all add: underline_pattern_def)

lemma italics_inert:
  "CHR ''*'' \<notin> set (text_of A buf) \<Longrightarrow> CHR ''_'' \<notin> set (text_of A buf)
   \<Longrightarrow> italics A buf = Some buf"
  unfolding italics_def
  by (rule sub_inert [where X = "{CHR ''*'', CHR ''_''}"]) (simp_all add: italics_pattern_def)

lemma linkify_inert:
  "CHR '':'' \<notin> set (text_of A buf) \<Longrightarrow> linkify A buf = Some buf"
  unfolding linkify_def
  by (rule sub_inert [where X = "{CHR '':''}"]) (simp_all add: web_link_pattern_def labelled_link_def bare_link_def)

lemma linkify_inert_slash:
  "CHR ''/'' \<notin> set (text_of A buf) \<Longrightarrow> linkify A buf = Some buf"
  unfolding linkify_def
  by (rule sub_inert [where X = "{CHR ''/''}"]) (simp_all add: web_link_pattern_def labelled_link_def bare_link_def)

lemma emojify_inert:
  "CHR ''&'' \<notin> set (text_of A buf) \<Longrightarrow> emojify A buf original_txt = Some buf"
  unfolding emojify_def Let_def
  by (simp add: sub_inert [where X = "{CHR ''&''}"] nitro_emote_pattern_def)

lemma remove_escaped_symbol_inert:
  "backslash \<notin> set (text_of A buf) \<Longrightarrow> remove_escaped_symbol A buf = Some buf"
  unfolding remove_escaped_symbol_def
  by (rule sub_inert [where X = "{backslash}"]) (simp_all add: escaped_symbols_pattern_def)

lemma escape_inert:
  assumes "\<forall>x \<in> set buf. entity (chr_of A x) = None"
  shows "escape A buf = buf"
  using assms by (induction buf) (simp_all add: escape_def escape_elem_def)

lemma womboji_inert:
  "CHR ''<'' \<notin> set s \<Longrightarrow> womboji_of (findall2 womboji_pattern s)"
  by (simp add: findall2_def finditer_inert [where X = "{CHR ''<''}"] womboji_pattern_def)

section \<open>Totality\<close>

lemma splice_total:
  assumes "\<And>i j c. (i, j, c) \<in> set L \<Longrightarrow> repl \<lparr>subject = buf, m_start = i, m_end = j, m_caps = c\<rparr> \<noteq> None"
  shows "\<exists>out. splice repl buf pos L = Some out"
  using assms
proof (induction L arbitrary: pos)
  case Nil
  show ?case by simp
next
  case (Cons m L)
  obtain i j c where m: "m = (i, j, c)" by (cases m)
  from Cons.prems [of i j c] m obtain r
    where r: "repl \<lparr>subject = buf, m_start = i, m_end = j, m_caps = c\<rparr> = Some r" by auto
  from Cons.IH [of j] Cons.prems obtain out where "splice repl buf j L = Some out" by auto
  with m r show ?case by simp
qed

lemma sub_total:
  assumes "\<And>i j c. (j, c) \<in> set (ms p (text_of A buf) (i, Map.empty))
     \<Longrightarrow> repl \<lparr>subject = buf, m_start = i, m_end = j, m_caps = c\<rparr> \<noteq> None"
  shows "\<exists>out. sub A p repl buf = Some out"
  unfolding sub_def
proof (rule splice_total)
  fix i j c
  assume "(i, j, c) \<in> set (finditer p (text_of A buf))"
  from finditer_sound [OF this] have "(j, c) \<in> set (ms p (text_of A buf) (i, Map.empty))" by simp
  then show "repl \<lparr>subject = buf, m_start = i, m_end = j, m_caps = c\<rparr> \<noteq> None"
    by (rule assms)
qed

lemma group_Some:
  "m_caps m n \<noteq> None \<Longrightarrow> \<exists>t. group m n = Some t"
  by (auto simp: group_def split: option.splits)

lemma escape_symbols_total: "\<exists>out. escape_symbols A buf = Some out"
  unfolding escape_symbols_def
proof (rule sub_total)
  fix i j c
  assume "(j, c) \<in> set (ms symbols_pattern (text_of A buf) (i, Map.empty))"
  then have "c 1 \<noteq> None" by (rule ms_sets) (simp add: symbols_pattern_def)
  then show "escape_symbols_repl A \<lparr>subject = buf, m_start = i, m_end = j, m_caps = c\<rparr> \<noteq> None"
    by (auto simp: escape_symbols_repl_def group_def split: option.splits)
qed

lemma remove_escaped_symbol_total: "\<exists>out. remove_escaped_symbol A buf = Some out"
  unfolding remove_escaped_symbol_def
proof (rule sub_total)
  fix i j c
  assume "(j, c) \<in> set (ms escaped_symbols_pattern (text_of A buf) (i, Map.empty))"
  then have "c 1 \<noteq> None" by (rule ms_sets) (simp add: escaped_symbols_pattern_def)
  then show "remove_escaped_symbol_repl \<lparr>subject = buf, m_start = i, m_end = j, m_caps = c\<rparr> \<noteq> None"
    by (auto simp: remove_escaped_symbol_repl_def group_def split: option.splits)
qed

lemma codeblock_repl_total:
  assumes "m_caps m 3 \<noteq> None"
  shows "codeblock_repl A m \<noteq> None"
proof -
  from group_Some [OF assms] obtain t where t: "group m 3 = Some t" by blast
  from escape_symbols_total [of A t] obtain u where "escape_symbols A t = Some u" by blast
  with t show ?thesis by (simp add: codeblock_repl_def Let_def)
qed

lemma codeblock_total: "\<exists>out. codeblock A buf = Some out"
  unfolding codeblock_def
proof (rule sub_total)
  fix i j c
  assume "(j, c) \<in> set (ms codeblock_pattern (text_of A buf) (i, Map.empty))"
  then have "c 3 \<noteq> None" by (rule ms_sets) (simp add: codeblock_pattern_def)
  then show "codeblock_repl A \<lparr>subject = buf, m_start = i, m_end = j, m_caps = c\<rparr> \<noteq> None"
    by (intro codeblock_repl_total) simp
qed

lemma inline_codeblock_repl_total:
  assumes "m_caps m 2 \<noteq> None"
  shows "inline_codeblock_repl A m \<noteq> None"
proof -
  from group_Some [OF assms] obtain t where t: "group m 2 = Some t" by blast
  from escape_symbols_total [of A t] obtain u where "escape_symbols A t = Some u" by blast
  with t show ?thesis by (simp add: inline_codeblock_repl_def Let_def)
qed

lemma inline_codeblock_total: "\<exists>out. inline_codeblock A buf = Some out"
  unfolding inline_codeblock_def
proof (rule sub_total)
  fix i j c
  assume "(j, c) \<in> set (ms inlinecodeblock_pattern (text_of A buf) (i, Map.empty))"
  then have "c 2 \<noteq> None" by (rule ms_sets) (simp add: inlinecodeblock_pattern_def)
  then show "inline_codeblock_repl A \<lparr>subject = buf, m_start = i, m_end = j, m_caps = c\<rparr> \<noteq> None"
    by (intro inline_codeblock_repl_total) simp
qed

lemma wrap_total: "\<exists>out. sub A p (wrap_repl A a b) buf = Some out"
  by (rule sub_total) (simp add: wrap_repl_def)

lemma remove_suppressed_embed_arrows_total:
  "\<exists>out. remove_suppressed_embed_arrows A buf = Some out"
  unfolding remove_suppressed_embed_arrows_def by (rule sub_total) simp

text \<open>The fallback branches of the three callbacks.\<close>

lemma ms_Alt_mem:
  "(j, c) \<in> set (ms (Alt a b) s st) \<longleftrightarrow> (j, c) \<in> set (ms a s st) \<or> (j, c) \<in> set (ms b s st)"
  by simp

lemma italics_match_groups:
  assumes "(j, c) \<in> set (ms italics_pattern s (i, c0))"
  shows "\<not> (c 1 = None \<and> c 2 = None)"
proof -
  let ?a = "seqs [NotBehind backslash, Lit ''*'', Grp 1 (Rep False 1 None is_dot),
            NotBehind backslash, Lit ''*'']"
  let ?b = "seqs [NotBehind backslash, Lit ''_'', Grp 2 (Rep False 1 None is_dot),
            NotBehind backslash, Lit ''_'']"
  from assms have "(j, c) \<in> set (ms ?a s (i, c0)) \<or> (j, c) \<in> set (ms ?b s (i, c0))"
    unfolding italics_pattern_def ms_Alt_mem .
  then show ?thesis
  proof
    assume "(j, c) \<in> set (ms ?a s (i, c0))"
    then have "c 1 \<noteq> None" by (rule ms_sets) simp
    then show ?thesis by simp
  next
    assume "(j, c) \<in> set (ms ?b s (i, c0))"
    then have "c 2 \<noteq> None" by (rule ms_sets) simp
    then show ?thesis by simp
  qed
qed

lemma italics_repl_total:
  assumes "\<not> (m_caps m 1 = None \<and> m_caps m 2 = None)"
  shows "italics_repl A m \<noteq> None"
  using assms by (auto simp: italics_repl_def group_def Let_def split: option.splits)

lemma italics_total: "\<exists>out. italics A buf = Some out"
  unfolding italics_def
proof (rule sub_total)
  fix i j c
  assume "(j, c) \<in> set (ms italics_pattern (text_of A buf) (i, Map.empty))"
  from italics_match_groups [OF this]
  show "italics_repl A \<lparr>subject = buf, m_start = i, m_end = j, m_caps = c\<rparr> \<noteq> None"
    by (intro italics_repl_total) simp
qed

lemma blockquote_match_groups:
  assumes "(j, c) \<in> set (ms blockQuote_pattern s (i, c0))"
  shows "\<not> (c 1 = None \<and> c 2 = None)"
proof -
  let ?a = "seqs [Bol, Rep True 0 None is_blank, Lit ''&gt;&gt;&gt; '', Grp 1 (Rep True 0 None is_any)]"
  let ?b = "seqs [Bol, Rep True 0 None is_blank, Lit ''&gt; '',
            Grp 2 (Seq (Rep True 0 None is_dot) (Rep True 0 None is_newline))]"
  from assms have "(j, c) \<in> set (ms ?a s (i, c0)) \<or> (j, c) \<in> set (ms ?b s (i, c0))"
    unfolding blockQuote_pattern_def ms_Alt_mem .
  then show ?thesis
  proof
    assume "(j, c) \<in> set (ms ?a s (i, c0))"
    then have "c 1 \<noteq> None" by (rule ms_sets) simp
    then show ?thesis by simp
  next
    assume "(j, c) \<in> set (ms ?b s (i, c0))"
    then have "c 2 \<noteq> None" by (rule ms_sets) simp
    then show ?thesis by simp
  qed
qed

lemma blockquote_repl_total:
  assumes "\<not> (m_caps m 1 = None \<and> m_caps m 2 = None)"
  shows "blockquote_repl A m \<noteq> None"
  using assms by (auto simp: blockquote_repl_def group_def Let_def split: option.splits)

lemma blockquote_total: "\<exists>out. blockquote A buf = Some out"
  unfolding blockquote_def
proof (rule sub_total)
  fix i j c
  assume "(j, c) \<in> set (ms blockQuote_pattern (text_of A buf) (i, Map.empty))"
  from blockquote_match_groups [OF this]
  show "blockquote_repl A \<lparr>subject = buf, m_start = i, m_end = j, m_caps = c\<rparr> \<noteq> None"
    by (intro blockquote_repl_total) simp
qed

lemma linkify_match_groups:
  assumes "(j, c) \<in> set (ms web_link_pattern s (i, c0))"
  shows "\<not> (c 3 = None \<and> c 2 = None)"
proof -
  from assms have "(j, c) \<in> set (ms labelled_link s (i, c0)) \<or> (j, c) \<in> set (ms bare_link s (i, c0))"
    unfolding web_link_pattern_def ms_Alt_mem .
  then show ?thesis
  proof
    assume "(j, c) \<in> set (ms labelled_link s (i, c0))"
    then have "c 2 \<noteq> None" by (rule ms_sets) (simp add: labelled_link_def)
    then show ?thesis by simp
  next
    assume "(j, c) \<in> set (ms bare_link s (i, c0))"
    then have "c 3 \<noteq> None" by (rule ms_sets) (simp add: bare_link_def)
    then show ?thesis by simp
  qed
qed

lemma linkify_repl_total:
  assumes "\<not> (m_caps m 3 = None \<and> m_caps m 2 = None)"
  shows "linkify_repl A m \<noteq> None"
  using assms by (auto simp: linkify_repl_def group_def Let_def split: option.splits)

lemma linkify_total: "\<exists>out. linkify A buf = Some out"
  unfolding linkify_def
proof (rule sub_total)
  fix i j c
  assume "(j, c) \<in> set (ms web_link_pattern (text_of A buf) (i, Map.empty))"
  from linkify_match_groups [OF this]
  show "linkify_repl A \<lparr>subject = buf, m_start = i, m_end = j, m_caps = c\<rparr> \<noteq> None"
    by (intro linkify_repl_total) simp
qed

lemma emojify_total: "\<exists>out. emojify A buf original_txt = Some out"
  unfolding emojify_def Let_def
  using sub_total [of nitro_emote_pattern A buf "wombojify_repl A"]
    sub_total [of nitro_emote_pattern A buf "emojify_repl A"]
  by (simp add: wombojify_repl_def emojify_repl_def emoji_repl_def Let_def)

lemma markdown_total_any: "\<exists>out. markdown A input = Some out"
proof -
  obtain b1 where 1: "codeblock A (escape A input) = Some b1" using codeblock_total by blast
  obtain b2 where 2: "inline_codeblock A b1 = Some b2" using inline_codeblock_total by blast
  obtain b3 where 3: "remove_suppressed_embed_arrows A b2 = Some b3"
    using remove_suppressed_embed_arrows_total by blast
  obtain b4 where 4: "blockquote A b3 = Some b4" using blockquote_total by blast
  obtain b5 where 5: "spoiler A b4 = Some b5" unfolding spoiler_def using wrap_total by blast
  obtain b6 where 6: "strikethrough A b5 = Some b6" unfolding strikethrough_def using wrap_total by blast
  obtain b7 where 7: "bold A b6 = Some b7" unfolding bold_def using wrap_total by blast
  obtain b8 where 8: "underline A b7 = Some b8" unfolding underline_def using wrap_total by blast
  obtain b9 where 9: "italics A b8 = Some b9" using italics_total by blast
  obtain b10 where 10: "linkify A b9 = Some b10" using linkify_total by blast
  obtain b11 where 11: "emojify A b10 (text_of A input) = Some b11" using emojify_total by blast
  obtain b12 where 12: "remove_escaped_symbol A b11 = Some b12" using remove_escaped_symbol_total by blast
  show ?thesis
    by (simp add: markdown_def 1 2 3 4 5 6 7 8 9 10 11 12)
qed

section \<open>The shape of matches\<close>





lemma finditer_none:
  assumes "\<And>i. i \<le> length s \<Longrightarrow> ms p s (i, Map.empty) = []"
  shows "finditer p s = []"
proof (cases "finditer p s")
  case (Cons m rest)
  obtain i j c where "m = (i, j, c)" by (cases m)
  with Cons have "(i, j, c) \<in> set (finditer p s)" by simp
  from finditer_sound [OF this] assms [of i] show ?thesis by simp
qed simp

lemma sub_none:
  assumes "\<And>i. i \<le> length buf \<Longrightarrow> ms p (text_of A buf) (i, Map.empty) = []"
  shows "sub A p repl buf = Some buf"
proof -
  have "finditer p (text_of A buf) = []"
  proof (rule finditer_none)
    fix i assume "i \<le> length (text_of A buf)"
    then have "i \<le> length buf" by (simp add: text_of_def)
    then show "ms p (text_of A buf) (i, Map.empty) = []" by (rule assms)
  qed
  then show ?thesis by (simp add: sub_def)
qed


lemma finditer_all:
  assumes "\<And>i j c. i \<le> length s \<Longrightarrow> (j, c) \<in> set (ms p s (i, Map.empty)) \<Longrightarrow> P (i, j, c)"
  shows "list_all P (finditer p s)"
  unfolding list_all_iff
proof
  fix m assume m: "m \<in> set (finditer p s)"
  obtain i j c where e: "m = (i, j, c)" by (cases m)
  from finditer_sound [OF m [unfolded e]] assms [of i j c] e show "P m" by simp
qed

section \<open>Symbol-protected text and the later passes\<close>

lemma nonempty_success:
  "xs \<noteq> [] \<Longrightarrow> \<exists>j c. (j, c) \<in> set xs"
  by (cases xs) auto

lemma adjacent_symbol_simps:
  "adjacent_symbol [] = False"
  "adjacent_symbol [x] = False"
  "adjacent_symbol (x # y # ys) \<longleftrightarrow>
     (x \<noteq> backslash \<and> is_symbol y \<and> y \<noteq> backslash) \<or> adjacent_symbol (y # ys)"
proof -
  show "adjacent_symbol [] = False" "adjacent_symbol [x] = False"
    by (simp_all add: adjacent_symbol_def)
  show "adjacent_symbol (x # y # ys) \<longleftrightarrow>
     (x \<noteq> backslash \<and> is_symbol y \<and> y \<noteq> backslash) \<or> adjacent_symbol (y # ys)"
  proof
    assume "adjacent_symbol (x # y # ys)"
    then obtain m where m: "Suc m < length (x # y # ys)" "(x # y # ys) ! m \<noteq> backslash"
      "is_symbol ((x # y # ys) ! Suc m)" "(x # y # ys) ! Suc m \<noteq> backslash"
      by (auto simp: adjacent_symbol_def)
    show "(x \<noteq> backslash \<and> is_symbol y \<and> y \<noteq> backslash) \<or> adjacent_symbol (y # ys)"
    proof (cases m)
      case 0
      with m show ?thesis by simp
    next
      case (Suc n)
      with m have "Suc n < length (y # ys)" "(y # ys) ! n \<noteq> backslash"
        "is_symbol ((y # ys) ! Suc n)" "(y # ys) ! Suc n \<noteq> backslash" by simp_all
      then have "adjacent_symbol (y # ys)" unfolding adjacent_symbol_def by blast
      then show ?thesis by simp
    qed
  next
    assume "(x \<noteq> backslash \<and> is_symbol y \<and> y \<noteq> backslash) \<or> adjacent_symbol (y # ys)"
    then show "adjacent_symbol (x # y # ys)"
    proof
      assume "x \<noteq> backslash \<and> is_symbol y \<and> y \<noteq> backslash"
      then show ?thesis unfolding adjacent_symbol_def by (intro exI [of _ 0]) simp
    next
      assume "adjacent_symbol (y # ys)"
      then obtain n where "Suc n < length (y # ys)" "(y # ys) ! n \<noteq> backslash"
        "is_symbol ((y # ys) ! Suc n)" "(y # ys) ! Suc n \<noteq> backslash"
        by (auto simp: adjacent_symbol_def)
      then show ?thesis unfolding adjacent_symbol_def by (intro exI [of _ "Suc n"]) simp
    qed
  qed
qed

lemmas symbol_eval = is_symbol_def is_alnum_def is_lower_def is_upper_def is_digit_def
  is_space_def in_range_def backslash_def backtick_def

lemma starts_sym_match:
  "starts_sym r \<Longrightarrow> (j, c') \<in> set (ms r s (i, c))
   \<Longrightarrow> i < length s \<and> is_symbol (s ! i) \<and> s ! i \<noteq> backslash"
proof (induction r arbitrary: i c j c')
  case (Lit t)
  from Lit.prems(1) obtain d ds where t: "t = d # ds" and d: "is_symbol d" "d \<noteq> backslash"
    by (cases t) auto
  from Lit.prems(2) have sw: "starts_with s i t" by (auto split: if_splits)
  from starts_with_nth [OF sw, of 0] t have "s ! i = d" by simp
  moreover have "i < length s"
  proof (rule ccontr)
    assume "\<not> i < length s"
    then have "drop i s = []" by simp
    with sw t show False by (simp add: starts_with_def)
  qed
  ultimately show ?case using d by simp
next
  case (Seq a b)
  from Seq.prems(2) obtain k d where 1: "(k, d) \<in> set (ms a s (i, c))" by auto
  from Seq.prems(1) have "starts_sym a" by simp
  from Seq.IH(1) [OF this 1] show ?case .
next
  case (Grp n a)
  from Grp.prems(2) obtain d where d: "(j, d) \<in> set (ms a s (i, c))" by auto
  from Grp.prems(1) have "starts_sym a" by simp
  from Grp.IH [OF this d] show ?case .
qed simp_all

lemma guardedD:
  "guarded s \<Longrightarrow> k < length s \<Longrightarrow> is_symbol (s ! k) \<Longrightarrow> s ! k \<noteq> backslash
   \<Longrightarrow> 0 < k \<and> s ! (k - 1) = backslash"
  unfolding guarded_def by blast

lemma ms_blocked:
  "blocked r \<Longrightarrow> guarded s \<Longrightarrow> ms r s (i, c) = []"
proof (induction r arbitrary: i c)
  case (Lit t)
  show ?case
  proof (rule ccontr)
    assume "ms (Lit t) s (i, c) \<noteq> []"
    then have sw: "starts_with s i t" by (auto split: if_splits)
    from Lit.prems(1) obtain m where m: "Suc m < length t" "t ! m \<noteq> backslash"
      "is_symbol (t ! Suc m)" "t ! Suc m \<noteq> backslash"
      by (auto simp: adjacent_symbol_def)
    from starts_with_nth [OF sw, of m] starts_with_nth [OF sw, of "Suc m"] m(1)
    have e: "s ! (i + m) = t ! m" "s ! Suc (i + m) = t ! Suc m" by simp_all
    from sw have "length (take (length t) (drop i s)) = length t" by (simp add: starts_with_def)
    with m(1) have "Suc (i + m) < length s" by simp
    from guardedD [OF Lit.prems(2) this] e m show False by simp
  qed
next
  case (Seq a b)
  show ?case
  proof (rule ccontr)
    assume "ms (Seq a b) s (i, c) \<noteq> []"
    from nonempty_success [OF this] obtain j c' where "(j, c') \<in> set (ms (Seq a b) s (i, c))"
      by blast
    then obtain k d where 1: "(k, d) \<in> set (ms a s (i, c))" and 2: "(j, c') \<in> set (ms b s (k, d))"
      by auto
    from Seq.prems(1) have "blocked a \<or> blocked b \<or> (a = NotBehind backslash \<and> starts_sym b)"
      by simp
    then show False
    proof (elim disjE conjE)
      assume "blocked a"
      from Seq.IH(1) [OF this Seq.prems(2)] 1 show False by simp
    next
      assume "blocked b"
      from Seq.IH(2) [OF this Seq.prems(2)] 2 show False by simp
    next
      assume a: "a = NotBehind backslash" and b: "starts_sym b"
      from 1 a have k: "k = i" "\<not> (0 < i \<and> s ! (i - 1) = backslash)"
        by (auto split: if_splits)
      from starts_sym_match [OF b 2] k(1)
      have "i < length s" "is_symbol (s ! i)" "s ! i \<noteq> backslash" by simp_all
      from guardedD [OF Seq.prems(2) this] k(2) show False by simp
    qed
  qed
next
  case (Alt a b)
  then show ?case by simp
next
  case (Grp n a)
  then show ?case by simp
qed simp_all

lemma sub_blocked:
  assumes "blocked p" and "guarded (text_of A buf)"
  shows "sub A p repl buf = Some buf"
  by (rule sub_none) (rule ms_blocked [OF assms])

lemma guarded_protect: "guarded (protect_symbols b)"
proof (induction b rule: rev_induct)
  case Nil
  show ?case by (simp add: guarded_def protect_symbols_def)
next
  case (snoc x xs)
  let ?p = "protect_symbols xs"
  have ps: "protect_symbols (xs @ [x]) = ?p @ (if is_symbol x then [backslash, x] else [x])"
    by (simp add: protect_symbols_def)
  show ?case
    unfolding guarded_def
  proof (intro notI, elim exE conjE)
    fix k
    assume k: "k < length (protect_symbols (xs @ [x]))"
      and sy: "is_symbol (protect_symbols (xs @ [x]) ! k)"
      and nb: "protect_symbols (xs @ [x]) ! k \<noteq> backslash"
      and ng: "\<not> (0 < k \<and> protect_symbols (xs @ [x]) ! (k - 1) = backslash)"
    show False
    proof (cases "k < length ?p")
      case True
      then have e: "protect_symbols (xs @ [x]) ! k = ?p ! k" by (simp add: ps nth_append)
      from guardedD [OF snoc.IH True] sy nb e have g: "0 < k" "?p ! (k - 1) = backslash" by simp_all
      from True g(1) have "k - 1 < length ?p" by simp
      then have "protect_symbols (xs @ [x]) ! (k - 1) = ?p ! (k - 1)"
        unfolding ps by (simp only: nth_append if_True)
      with g ng show False by simp
    next
      case False
      show False
      proof (cases "is_symbol x")
        case sx: True
        with False k have "k = length ?p \<or> k = Suc (length ?p)" by (auto simp: ps)
        then show False
        proof
          assume "k = length ?p"
          with sx nb show False by (simp add: ps nth_append)
        next
          assume "k = Suc (length ?p)"
          with sx ng show False by (simp add: ps nth_append)
        qed
      next
        case nx: False
        with False k have "k = length ?p" by (auto simp: ps)
        with nx sy show False by (simp add: ps nth_append)
      qed
    qed
  qed
qed

lemma codeblock_on_protected: "codeblock plain (protect_symbols b) = Some (protect_symbols b)"
  unfolding codeblock_def
  by (rule sub_blocked)
    (simp_all add: codeblock_pattern_def fence_def adjacent_symbol_simps symbol_eval text_of_plain
      guarded_protect [unfolded backslash_def])













section \<open>What a pass can write\<close>

lemma set_slice: "set (slice xs a b) \<subseteq> set xs"
  unfolding slice_def by (meson set_take_subset set_drop_subset subset_trans)

lemma group_subset: "group m n = Some t \<Longrightarrow> set t \<subseteq> set (subject m)"
  by (auto simp: group_def split: option.splits dest: subsetD [OF set_slice])

lemma expand_subset: "set (expand m n) \<subseteq> set (subject m)"
proof (cases "group m n")
  case None
  then show ?thesis by (simp add: expand_def)
next
  case (Some t)
  with group_subset [OF Some] show ?thesis by (simp add: expand_def)
qed

lemma set_tpl: "set (tpl A t) = emit A ` set t"
  by (simp add: tpl_def)

lemma splice_set:
  assumes "splice repl buf pos L = Some out"
    and "\<And>i j c r. repl \<lparr>subject = buf, m_start = i, m_end = j, m_caps = c\<rparr> = Some r \<Longrightarrow> set r \<subseteq> S"
    and "set buf \<subseteq> S"
  shows "set out \<subseteq> S"
  using assms(1)
proof (induction L arbitrary: pos out)
  case Nil
  then have "out = drop pos buf" by simp
  with assms(3) show ?case by (meson set_drop_subset subset_trans)
next
  case (Cons m L)
  obtain i j c where m: "m = (i, j, c)" by (cases m)
  from Cons.prems m obtain r rest where
    r: "repl \<lparr>subject = buf, m_start = i, m_end = j, m_caps = c\<rparr> = Some r" and
    rest: "splice repl buf j L = Some rest" and
    out: "out = slice buf pos i @ r @ rest"
    by (auto split: option.splits)
  from set_slice [of buf pos i] assms(3) have "set (slice buf pos i) \<subseteq> S" by blast
  with assms(2) [OF r] Cons.IH [OF rest] out show ?case by simp
qed

lemma sub_set:
  assumes "sub A p repl buf = Some out"
    and "\<And>m r. subject m = buf \<Longrightarrow> repl m = Some r \<Longrightarrow> set r \<subseteq> set buf \<union> E"
  shows "set out \<subseteq> set buf \<union> E"
proof (rule splice_set)
  show "splice repl buf 0 (finditer p (text_of A buf)) = Some out"
    using assms(1) by (simp add: sub_def)
  show "set buf \<subseteq> set buf \<union> E" by simp
  fix i j c r
  assume "repl \<lparr>subject = buf, m_start = i, m_end = j, m_caps = c\<rparr> = Some r"
  then show "set r \<subseteq> set buf \<union> E" by (intro assms(2)) simp_all
qed

lemma wrap_set:
  assumes "sub A p (wrap_repl A a b) buf = Some out"
  shows "set out \<subseteq> set buf \<union> emit A ` (set a \<union> set b)"
  using assms
proof (rule sub_set)
  fix m r
  assume s: "subject m = buf" and "wrap_repl A a b m = Some r"
  then have "r = tpl A a @ expand m 1 @ tpl A b" by (simp add: wrap_repl_def)
  with expand_subset [of m 1] s show "set r \<subseteq> set buf \<union> emit A ` (set a \<union> set b)"
    by (auto simp: set_tpl)
qed

text \<open>Every pass writes into the buffer only elements of the buffer and emitted elements.\<close>

lemma escape_symbols_set:
  assumes "escape_symbols A buf = Some out"
  shows "set out \<subseteq> set buf \<union> range (emit A)"
  using assms unfolding escape_symbols_def
proof (rule sub_set)
  fix m r
  assume "subject m = buf" and "escape_symbols_repl A m = Some r"
  then show "set r \<subseteq> set buf \<union> range (emit A)"
    by (auto simp: escape_symbols_repl_def set_tpl split: option.splits dest!: group_subset)
qed

lemma remove_escaped_symbol_set:
  assumes "remove_escaped_symbol A buf = Some out"
  shows "set out \<subseteq> set buf \<union> range (emit A)"
  using assms unfolding remove_escaped_symbol_def
proof (rule sub_set)
  fix m r
  assume "subject m = buf" and "remove_escaped_symbol_repl m = Some r"
  then show "set r \<subseteq> set buf \<union> range (emit A)"
    by (auto simp: remove_escaped_symbol_repl_def dest!: group_subset)
qed

lemma codeblock_set:
  assumes "codeblock A buf = Some out"
  shows "set out \<subseteq> set buf \<union> range (emit A)"
  using assms unfolding codeblock_def
proof (rule sub_set)
  fix m r
  assume s: "subject m = buf" and r: "codeblock_repl A m = Some r"
  from r obtain content content' where c: "group m 3 = Some content"
    "escape_symbols A content = Some content'"
    by (auto simp: codeblock_repl_def Let_def split: option.splits)
  from escape_symbols_set [OF c(2)] group_subset [OF c(1)] s
  have 1: "set content' \<subseteq> set buf \<union> range (emit A)" by auto
  have 2: "\<And>lang. group m 2 = Some lang \<Longrightarrow> set lang \<subseteq> set buf"
    using group_subset [of m 2] s by simp
  from r c 1 2 show "set r \<subseteq> set buf \<union> range (emit A)"
    by (auto simp: codeblock_repl_def Let_def set_tpl split: option.splits)
qed

lemma inline_codeblock_set:
  assumes "inline_codeblock A buf = Some out"
  shows "set out \<subseteq> set buf \<union> range (emit A)"
  using assms unfolding inline_codeblock_def
proof (rule sub_set)
  fix m r
  assume s: "subject m = buf" and r: "inline_codeblock_repl A m = Some r"
  from r obtain content content' where c: "group m 2 = Some content"
    "escape_symbols A content = Some content'"
    by (auto simp: inline_codeblock_repl_def Let_def split: option.splits)
  from escape_symbols_set [OF c(2)] group_subset [OF c(1)] s
  have 1: "set content' \<subseteq> set buf \<union> range (emit A)" by auto
  from r c 1 show "set r \<subseteq> set buf \<union> range (emit A)"
    by (auto simp: inline_codeblock_repl_def Let_def set_tpl split: option.splits)
qed

lemma wrap_set_range:
  assumes "sub A p (wrap_repl A a b) buf = Some out"
  shows "set out \<subseteq> set buf \<union> range (emit A)"
  using wrap_set [OF assms] by auto

lemma remove_suppressed_embed_arrows_set:
  assumes "remove_suppressed_embed_arrows A buf = Some out"
  shows "set out \<subseteq> set buf \<union> range (emit A)"
  using assms unfolding remove_suppressed_embed_arrows_def
proof (rule sub_set)
  fix m r
  assume "subject m = buf" and "Some (expand m 1) = Some r"
  with expand_subset [of m 1] show "set r \<subseteq> set buf \<union> range (emit A)" by auto
qed

lemma blockquote_repl_set:
  assumes "blockquote_repl A m = Some r"
  shows "set r \<subseteq> set (subject m) \<union> range (emit A)"
proof -
  have 1: "\<And>t. group m 1 = Some t \<Longrightarrow> set t \<subseteq> set (subject m)" by (rule group_subset)
  have 2: "\<And>t. group m 2 = Some t \<Longrightarrow> set (filter (\<lambda>x. chr_of A x \<noteq> newline) t) \<subseteq> set (subject m)"
    using group_subset [of m 2] by auto
  from assms 1 2 show ?thesis
    by (auto simp: blockquote_repl_def Let_def set_tpl split: option.splits)
qed

lemma blockquote_set:
  assumes "blockquote A buf = Some out"
  shows "set out \<subseteq> set buf \<union> range (emit A)"
  using assms unfolding blockquote_def
proof (rule sub_set)
  fix m r
  assume "subject m = buf" and "blockquote_repl A m = Some r"
  with blockquote_repl_set [of A m r] show "set r \<subseteq> set buf \<union> range (emit A)" by simp
qed

lemma italics_repl_set:
  assumes "italics_repl A m = Some r"
  shows "set r \<subseteq> set (subject m) \<union> range (emit A)"
  using assms group_subset [of m 1] group_subset [of m 2]
  by (auto simp: italics_repl_def Let_def set_tpl split: option.splits)

lemma italics_set:
  assumes "italics A buf = Some out"
  shows "set out \<subseteq> set buf \<union> range (emit A)"
  using assms unfolding italics_def
proof (rule sub_set)
  fix m r
  assume "subject m = buf" and "italics_repl A m = Some r"
  with italics_repl_set [of A m r] show "set r \<subseteq> set buf \<union> range (emit A)" by simp
qed

lemma linkify_repl_set:
  assumes "linkify_repl A m = Some r"
  shows "set r \<subseteq> set (subject m) \<union> range (emit A)"
  using assms group_subset [of m 3] group_subset [of m 2] expand_subset [of m 1]
  by (auto simp: linkify_repl_def Let_def set_tpl split: option.splits)

lemma linkify_set:
  assumes "linkify A buf = Some out"
  shows "set out \<subseteq> set buf \<union> range (emit A)"
  using assms unfolding linkify_def
proof (rule sub_set)
  fix m r
  assume "subject m = buf" and "linkify_repl A m = Some r"
  with linkify_repl_set [of A m r] show "set r \<subseteq> set buf \<union> range (emit A)" by simp
qed

lemma emoji_repl_set:
  assumes "emoji_repl A t m = Some r"
  shows "set r \<subseteq> set (subject m) \<union> range (emit A)"
  using assms expand_subset [of m 2] expand_subset [of m 3]
  by (auto simp: emoji_repl_def Let_def set_tpl split: if_splits)

lemma emojify_set:
  assumes "emojify A buf original_txt = Some out"
  shows "set out \<subseteq> set buf \<union> range (emit A)"
proof (cases "womboji_of (findall2 womboji_pattern original_txt)")
  case True
  with assms have "sub A nitro_emote_pattern (wombojify_repl A) buf = Some out"
    by (simp add: emojify_def)
  then show ?thesis
  proof (rule sub_set)
    fix m r
    assume "subject m = buf" and "wombojify_repl A m = Some r"
    then show "set r \<subseteq> set buf \<union> range (emit A)"
      unfolding wombojify_repl_def using emoji_repl_set [of A _ m r] by simp
  qed
next
  case False
  with assms have "sub A nitro_emote_pattern (emojify_repl A) buf = Some out"
    by (simp add: emojify_def)
  then show ?thesis
  proof (rule sub_set)
    fix m r
    assume "subject m = buf" and "emojify_repl A m = Some r"
    then show "set r \<subseteq> set buf \<union> range (emit A)"
      unfolding emojify_repl_def using emoji_repl_set [of A _ m r] by simp
  qed
qed

lemma escape_set:
  "set (escape A buf) \<subseteq> {x \<in> set buf. entity (chr_of A x) = None} \<union> range (emit A)"
  by (induction buf) (auto simp: escape_def escape_elem_def set_tpl split: option.splits)

section \<open>Forgetting the origins\<close>

lemma hom_text: "hom f A B \<Longrightarrow> text_of B (map f buf) = text_of A buf"
  by (simp add: hom_def text_of_def)

lemma hom_tpl: "hom f A B \<Longrightarrow> tpl B t = map f (tpl A t)"
  by (simp add: hom_def tpl_def)

lemma slice_map: "slice (map f xs) a b = map f (slice xs a b)"
  by (simp add: slice_def take_map drop_map)

lemma group_map:
  "group \<lparr>subject = map f buf, m_start = i, m_end = j, m_caps = c\<rparr> n
    = map_option (map f) (group \<lparr>subject = buf, m_start = i, m_end = j, m_caps = c\<rparr> n)"
  by (simp add: group_def slice_map split: option.splits)

lemma expand_map:
  "expand \<lparr>subject = map f buf, m_start = i, m_end = j, m_caps = c\<rparr> n
    = map f (expand \<lparr>subject = buf, m_start = i, m_end = j, m_caps = c\<rparr> n)"
  by (simp add: expand_def group_map split: option.splits)

lemma splice_map:
  assumes "\<And>i j c. replB \<lparr>subject = map f buf, m_start = i, m_end = j, m_caps = c\<rparr>
      = map_option (map f) (replA \<lparr>subject = buf, m_start = i, m_end = j, m_caps = c\<rparr>)"
  shows "splice replB (map f buf) pos L = map_option (map f) (splice replA buf pos L)"
proof (induction L arbitrary: pos)
  case Nil
  show ?case by (simp add: drop_map)
next
  case (Cons m L)
  obtain i j c where m: "m = (i, j, c)" by (cases m)
  show ?case
    by (simp add: m assms Cons.IH slice_map split: option.splits)
qed

lemma sub_map:
  assumes "hom f A B"
    and "\<And>i j c. replB \<lparr>subject = map f buf, m_start = i, m_end = j, m_caps = c\<rparr>
      = map_option (map f) (replA \<lparr>subject = buf, m_start = i, m_end = j, m_caps = c\<rparr>)"
  shows "sub B p replB (map f buf) = map_option (map f) (sub A p replA buf)"
  unfolding sub_def hom_text [OF assms(1)] by (rule splice_map) (rule assms(2))

lemma escape_symbols_map:
  assumes "hom f A B"
  shows "escape_symbols B (map f buf) = map_option (map f) (escape_symbols A buf)"
  unfolding escape_symbols_def
  by (rule sub_map [OF assms])
    (simp add: escape_symbols_repl_def group_map hom_tpl [OF assms] split: option.splits)

lemma remove_escaped_symbol_map:
  assumes "hom f A B"
  shows "remove_escaped_symbol B (map f buf) = map_option (map f) (remove_escaped_symbol A buf)"
  unfolding remove_escaped_symbol_def
  by (rule sub_map [OF assms]) (simp add: remove_escaped_symbol_repl_def group_map)

lemma codeblock_map:
  assumes "hom f A B"
  shows "codeblock B (map f buf) = map_option (map f) (codeblock A buf)"
  unfolding codeblock_def
  by (rule sub_map [OF assms])
    (simp add: codeblock_repl_def Let_def group_map hom_tpl [OF assms]
      escape_symbols_map [OF assms] split: option.splits)

lemma inline_codeblock_map:
  assumes "hom f A B"
  shows "inline_codeblock B (map f buf) = map_option (map f) (inline_codeblock A buf)"
  unfolding inline_codeblock_def
  by (rule sub_map [OF assms])
    (simp add: inline_codeblock_repl_def Let_def group_map hom_tpl [OF assms]
      escape_symbols_map [OF assms] split: option.splits)

lemma wrap_map:
  assumes "hom f A B"
  shows "sub B p (wrap_repl B a b) (map f buf) = map_option (map f) (sub A p (wrap_repl A a b) buf)"
  by (rule sub_map [OF assms]) (simp add: wrap_repl_def expand_map hom_tpl [OF assms])

lemma remove_suppressed_embed_arrows_map:
  assumes "hom f A B"
  shows "remove_suppressed_embed_arrows B (map f buf)
    = map_option (map f) (remove_suppressed_embed_arrows A buf)"
  unfolding remove_suppressed_embed_arrows_def
  by (rule sub_map [OF assms]) (simp add: expand_map)

lemma filter_newline_map:
  assumes "hom f A B"
  shows "filter (\<lambda>x. chr_of B x \<noteq> newline) (map f t) = map f (filter (\<lambda>x. chr_of A x \<noteq> newline) t)"
  using assms by (induction t) (simp_all add: hom_def)

lemma blockquote_map:
  assumes "hom f A B"
  shows "blockquote B (map f buf) = map_option (map f) (blockquote A buf)"
  unfolding blockquote_def
  by (rule sub_map [OF assms])
    (simp add: blockquote_repl_def Let_def group_map hom_tpl [OF assms]
      filter_newline_map [OF assms] split: option.splits)

lemma italics_map:
  assumes "hom f A B"
  shows "italics B (map f buf) = map_option (map f) (italics A buf)"
  unfolding italics_def
  by (rule sub_map [OF assms])
    (simp add: italics_repl_def Let_def group_map hom_tpl [OF assms] split: option.splits)

lemma linkify_map:
  assumes "hom f A B"
  shows "linkify B (map f buf) = map_option (map f) (linkify A buf)"
  unfolding linkify_def
  by (rule sub_map [OF assms])
    (simp add: linkify_repl_def Let_def group_map expand_map hom_tpl [OF assms] split: option.splits)

lemma emoji_repl_map:
  assumes "hom f A B"
  shows "emoji_repl B t \<lparr>subject = map f buf, m_start = i, m_end = j, m_caps = c\<rparr>
    = map_option (map f) (emoji_repl A t \<lparr>subject = buf, m_start = i, m_end = j, m_caps = c\<rparr>)"
  by (simp add: emoji_repl_def Let_def group_map expand_map hom_tpl [OF assms] split: option.splits)

lemma emojify_map:
  assumes "hom f A B"
  shows "emojify B (map f buf) original_txt = map_option (map f) (emojify A buf original_txt)"
  unfolding emojify_def Let_def wombojify_repl_def [abs_def] emojify_repl_def [abs_def]
  by (simp add: sub_map [OF assms] emoji_repl_map [OF assms])

lemma escape_map:
  assumes "hom f A B"
  shows "escape B (map f buf) = map f (escape A buf)"
  using assms
  by (induction buf) (simp_all add: escape_def escape_elem_def hom_def tpl_def split: option.splits)

lemma bind_map_option:
  "Option.bind (map_option g x) h = Option.bind x (\<lambda>y. h (g y))"
  by (cases x) simp_all

lemma markdown_map:
  assumes "hom f A B"
  shows "markdown B (map f input) = map_option (map f) (markdown A input)"
proof -
  have fin: "\<And>x k. map_option (map f) (Option.bind x k) = Option.bind x (\<lambda>y. map_option (map f) (k y))"
    by (case_tac x) simp_all
  show ?thesis
    unfolding markdown_def Let_def
    by (simp add: escape_map [OF assms] codeblock_map [OF assms] inline_codeblock_map [OF assms]
        remove_suppressed_embed_arrows_map [OF assms] blockquote_map [OF assms]
        spoiler_def strikethrough_def bold_def underline_def wrap_map [OF assms]
        italics_map [OF assms] linkify_map [OF assms] emojify_map [OF assms]
        remove_escaped_symbol_map [OF assms] hom_text [OF assms] bind_map_option fin)
qed

lemma hom_fst: "hom fst traced plain"
  by (simp add: hom_def traced_def plain_def)

lemma erase_origin: "map fst (raw s) = s"
  by (simp add: raw_def comp_def)

lemma markdown_erase: "markdown plain s = map_option (map fst) (markdown traced (raw s))"
  using markdown_map [OF hom_fst, of "raw s"] by (simp add: erase_origin)

section \<open>Runs of the pipeline on concrete messages\<close>


lemma md_labelled_link:
  \<open>markdown plain ''[click here](https://example.com)'' = Some ''<a href="https://example.com">click here</a>''\<close>
proof -
  have s0: \<open>escape plain ''[click here](https://example.com)'' = ''[click here](https://example.com)''\<close>
    by (rule escape_inert) (simp add: plain_def entity_def)
  have s1: \<open>codeblock plain ''[click here](https://example.com)'' = Some ''[click here](https://example.com)''\<close>
    by (rule codeblock_inert) (simp add: text_of_plain backtick_def backslash_def)
  have s2: \<open>inline_codeblock plain ''[click here](https://example.com)'' = Some ''[click here](https://example.com)''\<close>
    by (rule inline_codeblock_inert) (simp add: text_of_plain backtick_def backslash_def)
  have s3: \<open>remove_suppressed_embed_arrows plain ''[click here](https://example.com)'' = Some ''[click here](https://example.com)''\<close>
    by (rule remove_suppressed_embed_arrows_inert) (simp add: text_of_plain backtick_def backslash_def)
  have s4: \<open>blockquote plain ''[click here](https://example.com)'' = Some ''[click here](https://example.com)''\<close>
    by (rule blockquote_inert) (simp add: text_of_plain backtick_def backslash_def)
  have s5: \<open>spoiler plain ''[click here](https://example.com)'' = Some ''[click here](https://example.com)''\<close>
    by (rule spoiler_inert) (simp add: text_of_plain backtick_def backslash_def)
  have s6: \<open>strikethrough plain ''[click here](https://example.com)'' = Some ''[click here](https://example.com)''\<close>
    by (rule strikethrough_inert) (simp add: text_of_plain backtick_def backslash_def)
  have s7: \<open>bold plain ''[click here](https://example.com)'' = Some ''[click here](https://example.com)''\<close>
    by (rule bold_inert) (simp add: text_of_plain backtick_def backslash_def)
  have s8: \<open>underline plain ''[click here](https://example.com)'' = Some ''[click here](https://example.com)''\<close>
    by (rule underline_inert) (simp add: text_of_plain backtick_def backslash_def)
  have s9: \<open>italics plain ''[click here](https://example.com)'' = Some ''[click here](https://example.com)''\<close>
    by (rule italics_inert) (simp_all add: text_of_plain backtick_def backslash_def)
  have s10: \<open>linkify plain ''[click here](https://example.com)'' = Some ''<a href="https://example.com">click here</a>''\<close>
    by code_simp
  have s11: \<open>emojify plain ''<a href="https://example.com">click here</a>'' ''[click here](https://example.com)'' = Some ''<a href="https://example.com">click here</a>''\<close>
    by (rule emojify_inert) (simp add: text_of_plain backtick_def backslash_def)
  have s12: \<open>remove_escaped_symbol plain ''<a href="https://example.com">click here</a>'' = Some ''<a href="https://example.com">click here</a>''\<close>
    by (rule remove_escaped_symbol_inert) (simp add: text_of_plain backtick_def backslash_def)
  show ?thesis
    unfolding markdown_def Let_def text_of_plain
    by (simp only: s0 s1 s2 s3 s4 s5 s6 s7 s8 s9 s10 s11 s12 Option.bind.simps)
qed

lemma md_bare_url:
  \<open>markdown plain ''https://example.com'' = Some ''<a href="https://example.com">https://example.com</a>''\<close>
proof -
  have s0: \<open>escape plain ''https://example.com'' = ''https://example.com''\<close>
    by (rule escape_inert) (simp add: plain_def entity_def)
  have s1: \<open>codeblock plain ''https://example.com'' = Some ''https://example.com''\<close>
    by (rule codeblock_inert) (simp add: text_of_plain backtick_def backslash_def)
  have s2: \<open>inline_codeblock plain ''https://example.com'' = Some ''https://example.com''\<close>
    by (rule inline_codeblock_inert) (simp add: text_of_plain backtick_def backslash_def)
  have s3: \<open>remove_suppressed_embed_arrows plain ''https://example.com'' = Some ''https://example.com''\<close>
    by (rule remove_suppressed_embed_arrows_inert) (simp add: text_of_plain backtick_def backslash_def)
  have s4: \<open>blockquote plain ''https://example.com'' = Some ''https://example.com''\<close>
    by (rule blockquote_inert) (simp add: text_of_plain backtick_def backslash_def)
  have s5: \<open>spoiler plain ''https://example.com'' = Some ''https://example.com''\<close>
    by (rule spoiler_inert) (simp add: text_of_plain backtick_def backslash_def)
  have s6: \<open>strikethrough plain ''https://example.com'' = Some ''https://example.com''\<close>
    by (rule strikethrough_inert) (simp add: text_of_plain backtick_def backslash_def)
  have s7: \<open>bold plain ''https://example.com'' = Some ''https://example.com''\<close>
    by (rule bold_inert) (simp add: text_of_plain backtick_def backslash_def)
  have s8: \<open>underline plain ''https://example.com'' = Some ''https://example.com''\<close>
    by (rule underline_inert) (simp add: text_of_plain backtick_def backslash_def)
  have s9: \<open>italics plain ''https://example.com'' = Some ''https://example.com''\<close>
    by (rule italics_inert) (simp_all add: text_of_plain backtick_def backslash_def)
  have s10: \<open>linkify plain ''https://example.com'' = Some ''<a href="https://example.com">https://example.com</a>''\<close>
    by code_simp
  have s11: \<open>emojify plain ''<a href="https://example.com">https://example.com</a>'' ''https://example.com'' = Some ''<a href="https://example.com">https://example.com</a>''\<close>
    by (rule emojify_inert) (simp add: text_of_plain backtick_def backslash_def)
  have s12: \<open>remove_escaped_symbol plain ''<a href="https://example.com">https://example.com</a>'' = Some ''<a href="https://example.com">https://example.com</a>''\<close>
    by (rule remove_escaped_symbol_inert) (simp add: text_of_plain backtick_def backslash_def)
  show ?thesis
    unfolding markdown_def Let_def text_of_plain
    by (simp only: s0 s1 s2 s3 s4 s5 s6 s7 s8 s9 s10 s11 s12 Option.bind.simps)
qed

lemma md_escaped_bold:
  \<open>markdown plain [CHR 0x5C, CHR ''*'', CHR 0x5C, CHR ''*'', CHR ''n'', CHR ''o'', CHR ''t'', CHR '' '', CHR ''b'', CHR ''o'', CHR ''l'', CHR ''d'', CHR 0x5C, CHR ''*'', CHR 0x5C, CHR ''*''] = Some ''**not bold**''\<close>
proof -
  have s0: \<open>escape plain [CHR 0x5C, CHR ''*'', CHR 0x5C, CHR ''*'', CHR ''n'', CHR ''o'', CHR ''t'', CHR '' '', CHR ''b'', CHR ''o'', CHR ''l'', CHR ''d'', CHR 0x5C, CHR ''*'', CHR 0x5C, CHR ''*''] = [CHR 0x5C, CHR ''*'', CHR 0x5C, CHR ''*'', CHR ''n'', CHR ''o'', CHR ''t'', CHR '' '', CHR ''b'', CHR ''o'', CHR ''l'', CHR ''d'', CHR 0x5C, CHR ''*'', CHR 0x5C, CHR ''*'']\<close>
    by (rule escape_inert) (simp add: plain_def entity_def)
  have s1: \<open>codeblock plain [CHR 0x5C, CHR ''*'', CHR 0x5C, CHR ''*'', CHR ''n'', CHR ''o'', CHR ''t'', CHR '' '', CHR ''b'', CHR ''o'', CHR ''l'', CHR ''d'', CHR 0x5C, CHR ''*'', CHR 0x5C, CHR ''*''] = Some [CHR 0x5C, CHR ''*'', CHR 0x5C, CHR ''*'', CHR ''n'', CHR ''o'', CHR ''t'', CHR '' '', CHR ''b'', CHR ''o'', CHR ''l'', CHR ''d'', CHR 0x5C, CHR ''*'', CHR 0x5C, CHR ''*'']\<close>
    by (rule codeblock_inert) (simp add: text_of_plain backtick_def backslash_def)
  have s2: \<open>inline_codeblock plain [CHR 0x5C, CHR ''*'', CHR 0x5C, CHR ''*'', CHR ''n'', CHR ''o'', CHR ''t'', CHR '' '', CHR ''b'', CHR ''o'', CHR ''l'', CHR ''d'', CHR 0x5C, CHR ''*'', CHR 0x5C, CHR ''*''] = Some [CHR 0x5C, CHR ''*'', CHR 0x5C, CHR ''*'', CHR ''n'', CHR ''o'', CHR ''t'', CHR '' '', CHR ''b'', CHR ''o'', CHR ''l'', CHR ''d'', CHR 0x5C, CHR ''*'', CHR 0x5C, CHR ''*'']\<close>
    by (rule inline_codeblock_inert) (simp add: text_of_plain backtick_def backslash_def)
  have s3: \<open>remove_suppressed_embed_arrows plain [CHR 0x5C, CHR ''*'', CHR 0x5C, CHR ''*'', CHR ''n'', CHR ''o'', CHR ''t'', CHR '' '', CHR ''b'', CHR ''o'', CHR ''l'', CHR ''d'', CHR 0x5C, CHR ''*'', CHR 0x5C, CHR ''*''] = Some [CHR 0x5C, CHR ''*'', CHR 0x5C, CHR ''*'', CHR ''n'', CHR ''o'', CHR ''t'', CHR '' '', CHR ''b'', CHR ''o'', CHR ''l'', CHR ''d'', CHR 0x5C, CHR ''*'', CHR 0x5C, CHR ''*'']\<close>
    by (rule remove_suppressed_embed_arrows_inert) (simp add: text_of_plain backtick_def backslash_def)
  have s4: \<open>blockquote plain [CHR 0x5C, CHR ''*'', CHR 0x5C, CHR ''*'', CHR ''n'', CHR ''o'', CHR ''t'', CHR '' '', CHR ''b'', CHR ''o'', CHR ''l'', CHR ''d'', CHR 0x5C, CHR ''*'', CHR 0x5C, CHR ''*''] = Some [CHR 0x5C, CHR ''*'', CHR 0x5C, CHR ''*'', CHR ''n'', CHR ''o'', CHR ''t'', CHR '' '', CHR ''b'', CHR ''o'', CHR ''l'', CHR ''d'', CHR 0x5C, CHR ''*'', CHR 0x5C, CHR ''*'']\<close>
    by (rule blockquote_inert) (simp add: text_of_plain backtick_def backslash_def)
  have s5: \<open>spoiler plain [CHR 0x5C, CHR ''*'', CHR 0x5C, CHR ''*'', CHR ''n'', CHR ''o'', CHR ''t'', CHR '' '', CHR ''b'', CHR ''o'', CHR ''l'', CHR ''d'', CHR 0x5C, CHR ''*'', CHR 0x5C, CHR ''*''] = Some [CHR 0x5C, CHR ''*'', CHR 0x5C, CHR ''*'', CHR ''n'', CHR ''o'', CHR ''t'', CHR '' '', CHR ''b'', CHR ''o'', CHR ''l'', CHR ''d'', CHR 0x5C, CHR ''*'', CHR 0x5C, CHR ''*'']\<close>
    by (rule spoiler_inert) (simp add: text_of_plain backtick_def backslash_def)
  have s6: \<open>strikethrough plain [CHR 0x5C, CHR ''*'', CHR 0x5C, CHR ''*'', CHR ''n'', CHR ''o'', CHR ''t'', CHR '' '', CHR ''b'', CHR ''o'', CHR ''l'', CHR ''d'', CHR 0x5C, CHR ''*'', CHR 0x5C, CHR ''*''] = Some [CHR 0x5C, CHR ''*'', CHR 0x5C, CHR ''*'', CHR ''n'', CHR ''o'', CHR ''t'', CHR '' '', CHR ''b'', CHR ''o'', CHR ''l'', CHR ''d'', CHR 0x5C, CHR ''*'', CHR 0x5C, CHR ''*'']\<close>
    by (rule strikethrough_inert) (simp add: text_of_plain backtick_def backslash_def)
  have s7: \<open>bold plain [CHR 0x5C, CHR ''*'', CHR 0x5C, CHR ''*'', CHR ''n'', CHR ''o'', CHR ''t'', CHR '' '', CHR ''b'', CHR ''o'', CHR ''l'', CHR ''d'', CHR 0x5C, CHR ''*'', CHR 0x5C, CHR ''*''] = Some [CHR 0x5C, CHR ''*'', CHR 0x5C, CHR ''*'', CHR ''n'', CHR ''o'', CHR ''t'', CHR '' '', CHR ''b'', CHR ''o'', CHR ''l'', CHR ''d'', CHR 0x5C, CHR ''*'', CHR 0x5C, CHR ''*'']\<close>
    by code_simp
  have s8: \<open>underline plain [CHR 0x5C, CHR ''*'', CHR 0x5C, CHR ''*'', CHR ''n'', CHR ''o'', CHR ''t'', CHR '' '', CHR ''b'', CHR ''o'', CHR ''l'', CHR ''d'', CHR 0x5C, CHR ''*'', CHR 0x5C, CHR ''*''] = Some [CHR 0x5C, CHR ''*'', CHR 0x5C, CHR ''*'', CHR ''n'', CHR ''o'', CHR ''t'', CHR '' '', CHR ''b'', CHR ''o'', CHR ''l'', CHR ''d'', CHR 0x5C, CHR ''*'', CHR 0x5C, CHR ''*'']\<close>
    by (rule underline_inert) (simp add: text_of_plain backtick_def backslash_def)
  have s9: \<open>italics plain [CHR 0x5C, CHR ''*'', CHR 0x5C, CHR ''*'', CHR ''n'', CHR ''o'', CHR ''t'', CHR '' '', CHR ''b'', CHR ''o'', CHR ''l'', CHR ''d'', CHR 0x5C, CHR ''*'', CHR 0x5C, CHR ''*''] = Some [CHR 0x5C, CHR ''*'', CHR 0x5C, CHR ''*'', CHR ''n'', CHR ''o'', CHR ''t'', CHR '' '', CHR ''b'', CHR ''o'', CHR ''l'', CHR ''d'', CHR 0x5C, CHR ''*'', CHR 0x5C, CHR ''*'']\<close>
    by code_simp
  have s10: \<open>linkify plain [CHR 0x5C, CHR ''*'', CHR 0x5C, CHR ''*'', CHR ''n'', CHR ''o'', CHR ''t'', CHR '' '', CHR ''b'', CHR ''o'', CHR ''l'', CHR ''d'', CHR 0x5C, CHR ''*'', CHR 0x5C, CHR ''*''] = Some [CHR 0x5C, CHR ''*'', CHR 0x5C, CHR ''*'', CHR ''n'', CHR ''o'', CHR ''t'', CHR '' '', CHR ''b'', CHR ''o'', CHR ''l'', CHR ''d'', CHR 0x5C, CHR ''*'', CHR 0x5C, CHR ''*'']\<close>
    by (rule linkify_inert) (simp add: text_of_plain backtick_def backslash_def)
  have s11: \<open>emojify plain [CHR 0x5C, CHR ''*'', CHR 0x5C, CHR ''*'', CHR ''n'', CHR ''o'', CHR ''t'', CHR '' '', CHR ''b'', CHR ''o'', CHR ''l'', CHR ''d'', CHR 0x5C, CHR ''*'', CHR 0x5C, CHR ''*''] [CHR 0x5C, CHR ''*'', CHR 0x5C, CHR ''*'', CHR ''n'', CHR ''o'', CHR ''t'', CHR '' '', CHR ''b'', CHR ''o'', CHR ''l'', CHR ''d'', CHR 0x5C, CHR ''*'', CHR 0x5C, CHR ''*''] = Some [CHR 0x5C, CHR ''*'', CHR 0x5C, CHR ''*'', CHR ''n'', CHR ''o'', CHR ''t'', CHR '' '', CHR ''b'', CHR ''o'', CHR ''l'', CHR ''d'', CHR 0x5C, CHR ''*'', CHR 0x5C, CHR ''*'']\<close>
    by (rule emojify_inert) (simp add: text_of_plain backtick_def backslash_def)
  have s12: \<open>remove_escaped_symbol plain [CHR 0x5C, CHR ''*'', CHR 0x5C, CHR ''*'', CHR ''n'', CHR ''o'', CHR ''t'', CHR '' '', CHR ''b'', CHR ''o'', CHR ''l'', CHR ''d'', CHR 0x5C, CHR ''*'', CHR 0x5C, CHR ''*''] = Some ''**not bold**''\<close>
    by code_simp
  show ?thesis
    unfolding markdown_def Let_def text_of_plain
    by (simp only: s0 s1 s2 s3 s4 s5 s6 s7 s8 s9 s10 s11 s12 Option.bind.simps)
qed







lemma md_empty:
  \<open>markdown plain [] = Some []\<close>
proof -
  have s0: \<open>escape plain [] = []\<close>
    by (rule escape_inert) (simp add: plain_def entity_def)
  have s1: \<open>codeblock plain [] = Some []\<close>
    by (rule codeblock_inert) (simp add: text_of_plain backtick_def backslash_def)
  have s2: \<open>inline_codeblock plain [] = Some []\<close>
    by (rule inline_codeblock_inert) (simp add: text_of_plain backtick_def backslash_def)
  have s3: \<open>remove_suppressed_embed_arrows plain [] = Some []\<close>
    by (rule remove_suppressed_embed_arrows_inert) (simp add: text_of_plain backtick_def backslash_def)
  have s4: \<open>blockquote plain [] = Some []\<close>
    by (rule blockquote_inert) (simp add: text_of_plain backtick_def backslash_def)
  have s5: \<open>spoiler plain [] = Some []\<close>
    by (rule spoiler_inert) (simp add: text_of_plain backtick_def backslash_def)
  have s6: \<open>strikethrough plain [] = Some []\<close>
    by (rule strikethrough_inert) (simp add: text_of_plain backtick_def backslash_def)
  have s7: \<open>bold plain [] = Some []\<close>
    by (rule bold_inert) (simp add: text_of_plain backtick_def backslash_def)
  have s8: \<open>underline plain [] = Some []\<close>
    by (rule underline_inert) (simp add: text_of_plain backtick_def backslash_def)
  have s9: \<open>italics plain [] = Some []\<close>
    by (rule italics_inert) (simp_all add: text_of_plain backtick_def backslash_def)
  have s10: \<open>linkify plain [] = Some []\<close>
    by (rule linkify_inert) (simp add: text_of_plain backtick_def backslash_def)
  have s11: \<open>emojify plain [] [] = Some []\<close>
    by (rule emojify_inert) (simp add: text_of_plain backtick_def backslash_def)
  have s12: \<open>remove_escaped_symbol plain [] = Some []\<close>
    by (rule remove_escaped_symbol_inert) (simp add: text_of_plain backtick_def backslash_def)
  show ?thesis
    unfolding markdown_def Let_def text_of_plain
    by (simp only: s0 s1 s2 s3 s4 s5 s6 s7 s8 s9 s10 s11 s12 Option.bind.simps)
qed

lemma md_unbalanced:
  \<open>markdown plain ''**a < b'' = Some ''**a &lt; b''\<close>
proof -
  have s0: \<open>escape plain ''**a < b'' = ''**a &lt; b''\<close>
    by (simp add: escape_def escape_elem_def plain_def entity_def tpl_def)
  have s1: \<open>codeblock plain ''**a &lt; b'' = Some ''**a &lt; b''\<close>
    by (rule codeblock_inert) (simp add: text_of_plain backtick_def backslash_def)
  have s2: \<open>inline_codeblock plain ''**a &lt; b'' = Some ''**a &lt; b''\<close>
    by (rule inline_codeblock_inert) (simp add: text_of_plain backtick_def backslash_def)
  have s3: \<open>remove_suppressed_embed_arrows plain ''**a &lt; b'' = Some ''**a &lt; b''\<close>
    by code_simp
  have s4: \<open>blockquote plain ''**a &lt; b'' = Some ''**a &lt; b''\<close>
    by code_simp
  have s5: \<open>spoiler plain ''**a &lt; b'' = Some ''**a &lt; b''\<close>
    by (rule spoiler_inert) (simp add: text_of_plain backtick_def backslash_def)
  have s6: \<open>strikethrough plain ''**a &lt; b'' = Some ''**a &lt; b''\<close>
    by (rule strikethrough_inert) (simp add: text_of_plain backtick_def backslash_def)
  have s7: \<open>bold plain ''**a &lt; b'' = Some ''**a &lt; b''\<close>
    by code_simp
  have s8: \<open>underline plain ''**a &lt; b'' = Some ''**a &lt; b''\<close>
    by (rule underline_inert) (simp add: text_of_plain backtick_def backslash_def)
  have s9: \<open>italics plain ''**a &lt; b'' = Some ''**a &lt; b''\<close>
    by code_simp
  have s10: \<open>linkify plain ''**a &lt; b'' = Some ''**a &lt; b''\<close>
    by (rule linkify_inert) (simp add: text_of_plain backtick_def backslash_def)
  have s11: \<open>emojify plain ''**a &lt; b'' ''**a < b'' = Some ''**a &lt; b''\<close>
    by code_simp
  have s12: \<open>remove_escaped_symbol plain ''**a &lt; b'' = Some ''**a &lt; b''\<close>
    by (rule remove_escaped_symbol_inert) (simp add: text_of_plain backtick_def backslash_def)
  show ?thesis
    unfolding markdown_def Let_def text_of_plain
    by (simp only: s0 s1 s2 s3 s4 s5 s6 s7 s8 s9 s10 s11 s12 Option.bind.simps)
qed

lemma md_whitespace:
  \<open>markdown plain [CHR '' '', CHR 0x09, CHR 0x0A, CHR '' ''] = Some [CHR '' '', CHR 0x09, CHR 0x0A, CHR '' '']\<close>
proof -
  have s0: \<open>escape plain [CHR '' '', CHR 0x09, CHR 0x0A, CHR '' ''] = [CHR '' '', CHR 0x09, CHR 0x0A, CHR '' '']\<close>
    by (rule escape_inert) (simp add: plain_def entity_def)
  have s1: \<open>codeblock plain [CHR '' '', CHR 0x09, CHR 0x0A, CHR '' ''] = Some [CHR '' '', CHR 0x09, CHR 0x0A, CHR '' '']\<close>
    by (rule codeblock_inert) (simp add: text_of_plain backtick_def backslash_def)
  have s2: \<open>inline_codeblock plain [CHR '' '', CHR 0x09, CHR 0x0A, CHR '' ''] = Some [CHR '' '', CHR 0x09, CHR 0x0A, CHR '' '']\<close>
    by (rule inline_codeblock_inert) (simp add: text_of_plain backtick_def backslash_def)
  have s3: \<open>remove_suppressed_embed_arrows plain [CHR '' '', CHR 0x09, CHR 0x0A, CHR '' ''] = Some [CHR '' '', CHR 0x09, CHR 0x0A, CHR '' '']\<close>
    by (rule remove_suppressed_embed_arrows_inert) (simp add: text_of_plain backtick_def backslash_def)
  have s4: \<open>blockquote plain [CHR '' '', CHR 0x09, CHR 0x0A, CHR '' ''] = Some [CHR '' '', CHR 0x09, CHR 0x0A, CHR '' '']\<close>
    by (rule blockquote_inert) (simp add: text_of_plain backtick_def backslash_def)
  have s5: \<open>spoiler plain [CHR '' '', CHR 0x09, CHR 0x0A, CHR '' ''] = Some [CHR '' '', CHR 0x09, CHR 0x0A, CHR '' '']\<close>
    by (rule spoiler_inert) (simp add: text_of_plain backtick_def backslash_def)
  have s6: \<open>strikethrough plain [CHR '' '', CHR 0x09, CHR 0x0A, CHR '' ''] = Some [CHR '' '', CHR 0x09, CHR 0x0A, CHR '' '']\<close>
    by (rule strikethrough_inert) (simp add: text_of_plain backtick_def backslash_def)
  have s7: \<open>bold plain [CHR '' '', CHR 0x09, CHR 0x0A, CHR '' ''] = Some [CHR '' '', CHR 0x09, CHR 0x0A, CHR '' '']\<close>
    by (rule bold_inert) (simp add: text_of_plain backtick_def backslash_def)
  have s8: \<open>underline plain [CHR '' '', CHR 0x09, CHR 0x0A, CHR '' ''] = Some [CHR '' '', CHR 0x09, CHR 0x0A, CHR '' '']\<close>
    by (rule underline_inert) (simp add: text_of_plain backtick_def backslash_def)
  have s9: \<open>italics plain [CHR '' '', CHR 0x09, CHR 0x0A, CHR '' ''] = Some [CHR '' '', CHR 0x09, CHR 0x0A, CHR '' '']\<close>
    by (rule italics_inert) (simp_all add: text_of_plain backtick_def backslash_def)
  have s10: \<open>linkify plain [CHR '' '', CHR 0x09, CHR 0x0A, CHR '' ''] = Some [CHR '' '', CHR 0x09, CHR 0x0A, CHR '' '']\<close>
    by (rule linkify_inert) (simp add: text_of_plain backtick_def backslash_def)
  have s11: \<open>emojify plain [CHR '' '', CHR 0x09, CHR 0x0A, CHR '' ''] [CHR '' '', CHR 0x09, CHR 0x0A, CHR '' ''] = Some [CHR '' '', CHR 0x09, CHR 0x0A, CHR '' '']\<close>
    by (rule emojify_inert) (simp add: text_of_plain backtick_def backslash_def)
  have s12: \<open>remove_escaped_symbol plain [CHR '' '', CHR 0x09, CHR 0x0A, CHR '' ''] = Some [CHR '' '', CHR 0x09, CHR 0x0A, CHR '' '']\<close>
    by (rule remove_escaped_symbol_inert) (simp add: text_of_plain backtick_def backslash_def)
  show ?thesis
    unfolding markdown_def Let_def text_of_plain
    by (simp only: s0 s1 s2 s3 s4 s5 s6 s7 s8 s9 s10 s11 s12 Option.bind.simps)
qed


lemma md_angle_italics:
  \<open>markdown plain ''<*a*>'' = Some ''&lt;<em>a</em>&gt;''\<close>
proof -
  have s0: \<open>escape plain ''<*a*>'' = ''&lt;*a*&gt;''\<close>
    by (simp add: escape_def escape_elem_def plain_def entity_def tpl_def)
  have s1: \<open>codeblock plain ''&lt;*a*&gt;'' = Some ''&lt;*a*&gt;''\<close>
    by (rule codeblock_inert) (simp add: text_of_plain backtick_def backslash_def)
  have s2: \<open>inline_codeblock plain ''&lt;*a*&gt;'' = Some ''&lt;*a*&gt;''\<close>
    by (rule inline_codeblock_inert) (simp add: text_of_plain backtick_def backslash_def)
  have s3: \<open>remove_suppressed_embed_arrows plain ''&lt;*a*&gt;'' = Some ''&lt;*a*&gt;''\<close>
    by code_simp
  have s4: \<open>blockquote plain ''&lt;*a*&gt;'' = Some ''&lt;*a*&gt;''\<close>
    by code_simp
  have s5: \<open>spoiler plain ''&lt;*a*&gt;'' = Some ''&lt;*a*&gt;''\<close>
    by (rule spoiler_inert) (simp add: text_of_plain backtick_def backslash_def)
  have s6: \<open>strikethrough plain ''&lt;*a*&gt;'' = Some ''&lt;*a*&gt;''\<close>
    by (rule strikethrough_inert) (simp add: text_of_plain backtick_def backslash_def)
  have s7: \<open>bold plain ''&lt;*a*&gt;'' = Some ''&lt;*a*&gt;''\<close>
    by code_simp
  have s8: \<open>underline plain ''&lt;*a*&gt;'' = Some ''&lt;*a*&gt;''\<close>
    by (rule underline_inert) (simp add: text_of_plain backtick_def backslash_def)
  have s9: \<open>italics plain ''&lt;*a*&gt;'' = Some ''&lt;<em>a</em>&gt;''\<close>
    by code_simp
  have s10: \<open>linkify plain ''&lt;<em>a</em>&gt;'' = Some ''&lt;<em>a</em>&gt;''\<close>
    by (rule linkify_inert) (simp add: text_of_plain backtick_def backslash_def)
  have s11: \<open>emojify plain ''&lt;<em>a</em>&gt;'' ''<*a*>'' = Some ''&lt;<em>a</em>&gt;''\<close>
    by code_simp
  have s12: \<open>remove_escaped_symbol plain ''&lt;<em>a</em>&gt;'' = Some ''&lt;<em>a</em>&gt;''\<close>
    by (rule remove_escaped_symbol_inert) (simp add: text_of_plain backtick_def backslash_def)
  show ?thesis
    unfolding markdown_def Let_def text_of_plain
    by (simp only: s0 s1 s2 s3 s4 s5 s6 s7 s8 s9 s10 s11 s12 Option.bind.simps)
qed

section \<open>Formatting claims\<close>





lemma lookbehind_blocks_bold:
  "match_at bold_pattern (pre @ backslash # rest) (Suc (length pre)) = None"
  by (simp add: match_at_def bold_pattern_def nth_append)


text \<open>
  Claim C9. In the message \<^verbatim>\<open>\*\*not bold\*\*\<close> every star follows a backslash. The output is
  the literal text \<^verbatim>\<open>**not bold**\<close>, with no \<^verbatim>\<open><strong>\<close>. The bold and italics passes leave
  the buffer as it is, because their patterns refuse a delimiter right after a backslash, and
  the backslashes are still there when the last pass, \<^verbatim>\<open>remove_escaped_symbol\<close>, takes them
  out. In any buffer the bold pattern has no match that starts right after a backslash.
\<close>

theorem escaped_delimiters_stay_literal:
  "markdown plain ([backslash, CHR ''*'', backslash, CHR ''*''] @ ''not bold''
       @ [backslash, CHR ''*'', backslash, CHR ''*'']) = Some ''**not bold**''
   \<and> has_sub ''**not bold**'' ''**not bold**''
   \<and> \<not> has_sub ''**not bold**'' ''<strong>''
   \<and> bold plain ([backslash, CHR ''*'', backslash, CHR ''*''] @ ''not bold''
       @ [backslash, CHR ''*'', backslash, CHR ''*''])
       = Some ([backslash, CHR ''*'', backslash, CHR ''*''] @ ''not bold''
       @ [backslash, CHR ''*'', backslash, CHR ''*''])
   \<and> italics plain ([backslash, CHR ''*'', backslash, CHR ''*''] @ ''not bold''
       @ [backslash, CHR ''*'', backslash, CHR ''*''])
       = Some ([backslash, CHR ''*'', backslash, CHR ''*''] @ ''not bold''
       @ [backslash, CHR ''*'', backslash, CHR ''*''])
   \<and> remove_escaped_symbol plain ([backslash, CHR ''*'', backslash, CHR ''*''] @ ''not bold''
       @ [backslash, CHR ''*'', backslash, CHR ''*'']) = Some ''**not bold**''
   \<and> match_at bold_pattern (pre @ backslash # rest) (Suc (length pre)) = None"
proof -
  let ?i = "[backslash, CHR ''*'', backslash, CHR ''*''] @ ''not bold''
       @ [backslash, CHR ''*'', backslash, CHR ''*'']"
  have m: "markdown plain ?i = Some ''**not bold**''"
    using md_escaped_bold by (simp add: backslash_def)
  have h: "has_sub ''**not bold**'' ''**not bold**''" "\<not> has_sub ''**not bold**'' ''<strong>''"
    by simp_all
  have b: "bold plain ?i = Some ?i" by code_simp
  have i: "italics plain ?i = Some ?i" by code_simp
  have r: "remove_escaped_symbol plain ?i = Some ''**not bold**''" by code_simp
  from m h b i r lookbehind_blocks_bold show ?thesis by blast
qed



section \<open>Links and totality\<close>

lemma ms_grps:
  "(j, c') \<in> set (ms r s (i, c)) \<Longrightarrow> n \<notin> grps r \<Longrightarrow> c' n = c n"
proof (induction r arbitrary: i c j c')
  case (Lit t)
  then show ?case by (auto split: if_splits)
next
  case (Cls p)
  then show ?case by (auto split: if_splits)
next
  case (Rep g lo hi p)
  then show ?case by (auto simp: Let_def split: if_splits)
next
  case (Seq a b)
  from Seq.prems obtain k d where 1: "(k, d) \<in> set (ms a s (i, c))" and 2: "(j, c') \<in> set (ms b s (k, d))"
    by auto
  from Seq.prems(2) have n: "n \<notin> grps a" "n \<notin> grps b" by simp_all
  from Seq.IH(1) [OF 1 n(1)] Seq.IH(2) [OF 2 n(2)] show ?case by simp
next
  case (Alt a b)
  from Alt.prems have "(j, c') \<in> set (ms a s (i, c)) \<or> (j, c') \<in> set (ms b s (i, c))" by simp
  moreover from Alt.prems(2) have "n \<notin> grps a" "n \<notin> grps b" by simp_all
  ultimately show ?case using Alt.IH by blast
next
  case (Opt a)
  from Opt.prems have "(j, c') \<in> set (ms a s (i, c)) \<or> (j, c') = (i, c)" by auto
  moreover from Opt.prems(2) have "n \<notin> grps a" by simp
  ultimately show ?case using Opt.IH by blast
next
  case (Grp m a)
  from Grp.prems obtain d where d: "(j, d) \<in> set (ms a s (i, c))" and c': "c' = d(m \<mapsto> (i, j))" by auto
  from Grp.prems(2) have "n \<noteq> m" "n \<notin> grps a" by simp_all
  with Grp.IH [OF d] c' show ?case by simp
next
  case (Backref m)
  then show ?case by (auto split: option.splits if_splits)
next
  case (NotBehind x)
  then show ?case by (auto split: if_splits)
next
  case (NotAhead x)
  then show ?case by (auto split: if_splits)
next
  case Bol
  then show ?case by (auto split: if_splits)
qed

lemma finditer_all3:
  assumes "\<And>i j c. (j, c) \<in> set (ms p s (i, Map.empty)) \<Longrightarrow> Q i j c"
  shows "list_all (\<lambda>(i, j, c). Q i j c) (finditer p s)"
  by (rule finditer_all) (auto intro: assms)

text \<open>
  Claim C8. The message \<^verbatim>\<open>[click here](https://example.com)\<close> renders as an anchor with the
  visible text \<^verbatim>\<open>click here\<close> and the href \<^verbatim>\<open>https://example.com\<close>. The link pattern is the
  alternation of the labelled form and the bare URL, in this order: wherever the labelled form
  matches, the match of the pattern is the first match of the labelled form, the group of the
  bare URL takes no part, and the replacement is the anchor of the captured URL around the
  captured label. A bare URL alone renders as an anchor whose href and text are both the URL.
\<close>

theorem labelled_link_precedence:
  assumes "ms labelled_link s (i, Map.empty) \<noteq> []"
  shows \<open>web_link_pattern = Alt labelled_link bare_link
    \<and> (\<exists>j c rest. ms labelled_link s (i, Map.empty) = (j, c) # rest
         \<and> match_at web_link_pattern s i = Some (i, j, c)
         \<and> c 3 = None
         \<and> (\<exists>a b u v. c 1 = Some (a, b) \<and> c 2 = Some (u, v)
              \<and> linkify_repl plain \<lparr>subject = s, m_start = i, m_end = j, m_caps = c\<rparr>
                  = Some (''<a href="'' @ slice s u v @ ''">'' @ slice s a b @ ''</a>'')))
    \<and> linkify_repl plain \<lparr>subject = t, m_start = k, m_end = l, m_caps = [3 \<mapsto> (k, l)]\<rparr>
        = Some (''<a href="'' @ slice t k l @ ''">'' @ slice t k l @ ''</a>'')
    \<and> markdown plain ''[click here](https://example.com)''
        = Some ''<a href="https://example.com">click here</a>''
    \<and> markdown plain ''https://example.com''
        = Some ''<a href="https://example.com">https://example.com</a>''\<close>
proof -
  from assms obtain j c rest where m: "ms labelled_link s (i, Map.empty) = (j, c) # rest"
    by (cases "ms labelled_link s (i, Map.empty)") auto
  then have mem: "(j, c) \<in> set (ms labelled_link s (i, Map.empty))" by simp
  from m have at: "match_at web_link_pattern s i = Some (i, j, c)"
    by (simp add: match_at_def web_link_pattern_def)
  have "c 3 = Map.empty 3" using mem by (rule ms_grps) (simp add: labelled_link_def)
  then have c3: "c 3 = None" by simp
  have "c 1 \<noteq> None" using mem by (rule ms_sets) (simp add: labelled_link_def)
  then obtain a b where c1: "c 1 = Some (a, b)" by auto
  have "c 2 \<noteq> None" using mem by (rule ms_sets) (simp add: labelled_link_def)
  then obtain u v where c2: "c 2 = Some (u, v)" by auto
  have r: \<open>linkify_repl plain \<lparr>subject = s, m_start = i, m_end = j, m_caps = c\<rparr>
      = Some (''<a href="'' @ slice s u v @ ''">'' @ slice s a b @ ''</a>'')\<close>
    using c1 c2 c3 by (simp add: linkify_repl_def group_def expand_def tpl_plain)
  have bare: \<open>linkify_repl plain \<lparr>subject = t, m_start = k, m_end = l, m_caps = [3 \<mapsto> (k, l)]\<rparr>
        = Some (''<a href="'' @ slice t k l @ ''">'' @ slice t k l @ ''</a>'')\<close>
    by (simp add: linkify_repl_def group_def tpl_plain)
  from m at c3 c1 c2 r
  have ex: \<open>\<exists>j c rest. ms labelled_link s (i, Map.empty) = (j, c) # rest
         \<and> match_at web_link_pattern s i = Some (i, j, c)
         \<and> c 3 = None
         \<and> (\<exists>a b u v. c 1 = Some (a, b) \<and> c 2 = Some (u, v)
              \<and> linkify_repl plain \<lparr>subject = s, m_start = i, m_end = j, m_caps = c\<rparr>
                  = Some (''<a href="'' @ slice s u v @ ''">'' @ slice s a b @ ''</a>''))\<close>
    by blast
  from web_link_pattern_def ex bare md_labelled_link md_bare_url show ?thesis by blast
qed

theorem labelled_link_precedence_witness:
  \<open>ms labelled_link ''[click here](https://example.com)'' (0, Map.empty) \<noteq> []
   \<and> (\<exists>j c. match_at web_link_pattern ''[click here](https://example.com)'' 0 = Some (0, j, c)
        \<and> c 3 = None)
   \<and> linkify plain ''[click here](https://example.com)''
       = Some ''<a href="https://example.com">click here</a>''\<close>
proof -
  have "map fst (ms labelled_link ''[click here](https://example.com)'' (0, Map.empty)) = [33]"
    by code_simp
  then have h: "ms labelled_link ''[click here](https://example.com)'' (0, Map.empty) \<noteq> []"
    by auto
  have l: \<open>linkify plain ''[click here](https://example.com)''
       = Some ''<a href="https://example.com">click here</a>''\<close>
    by code_simp
  from labelled_link_precedence [OF h] h l show ?thesis by blast
qed

text \<open>
  Claim C2. \<^verbatim>\<open>DiscordMarkdown.markdown\<close> returns a string for every input string. A replacement
  callback that returns \<^verbatim>\<open>None\<close> is modelled as a failure of the pass; the callbacks of the
  italics, block quote and link passes never do so on a match their pattern finds, in any
  buffer, because each alternative of these patterns contains the group that its branch of
  the callback reads. The empty message gives the empty string, a message of white space
  only comes back as it is, and an unbalanced delimiter stays as escaped literal text.
\<close>

theorem markdown_total:
  "markdown plain input \<noteq> None
   \<and> list_all (\<lambda>(i, j, c). italics_repl plain \<lparr>subject = buf, m_start = i, m_end = j, m_caps = c\<rparr> \<noteq> None)
       (finditer italics_pattern buf)
   \<and> list_all (\<lambda>(i, j, c). blockquote_repl plain \<lparr>subject = buf, m_start = i, m_end = j, m_caps = c\<rparr> \<noteq> None)
       (finditer blockQuote_pattern buf)
   \<and> list_all (\<lambda>(i, j, c). linkify_repl plain \<lparr>subject = buf, m_start = i, m_end = j, m_caps = c\<rparr> \<noteq> None)
       (finditer web_link_pattern buf)
   \<and> markdown plain [] = Some []
   \<and> markdown plain [CHR '' '', CHR 0x09, CHR 0x0A, CHR '' ''] = Some [CHR '' '', CHR 0x09, CHR 0x0A, CHR '' '']
   \<and> markdown plain ''**a < b'' = Some ''**a &lt; b''"
proof -
  have t: "markdown plain input \<noteq> None"
    using markdown_total_any [of plain input] by auto
  have i: "list_all (\<lambda>(i, j, c). italics_repl plain \<lparr>subject = buf, m_start = i, m_end = j, m_caps = c\<rparr> \<noteq> None)
       (finditer italics_pattern buf)"
  proof (rule finditer_all3)
    fix i j c
    assume "(j, c) \<in> set (ms italics_pattern buf (i, Map.empty))"
    from italics_match_groups [OF this]
    show "italics_repl plain \<lparr>subject = buf, m_start = i, m_end = j, m_caps = c\<rparr> \<noteq> None"
      by (intro italics_repl_total) simp
  qed

  have b: "list_all (\<lambda>(i, j, c). blockquote_repl plain \<lparr>subject = buf, m_start = i, m_end = j, m_caps = c\<rparr> \<noteq> None)
       (finditer blockQuote_pattern buf)"
  proof (rule finditer_all3)
    fix i j c
    assume "(j, c) \<in> set (ms blockQuote_pattern buf (i, Map.empty))"
    from blockquote_match_groups [OF this]
    show "blockquote_repl plain \<lparr>subject = buf, m_start = i, m_end = j, m_caps = c\<rparr> \<noteq> None"
      by (intro blockquote_repl_total) simp
  qed

  have l: "list_all (\<lambda>(i, j, c). linkify_repl plain \<lparr>subject = buf, m_start = i, m_end = j, m_caps = c\<rparr> \<noteq> None)
       (finditer web_link_pattern buf)"
  proof (rule finditer_all3)
    fix i j c
    assume "(j, c) \<in> set (ms web_link_pattern buf (i, Map.empty))"
    from linkify_match_groups [OF this]
    show "linkify_repl plain \<lparr>subject = buf, m_start = i, m_end = j, m_caps = c\<rparr> \<noteq> None"
      by (intro linkify_repl_total) simp
  qed

  from t i b l md_empty md_whitespace md_unbalanced show ?thesis by blast
qed

section \<open>Code blocks and emoji\<close>





section \<open>HTML safety\<close>

lemma markdown_set:
  assumes "markdown A input = Some out"
  shows "set out \<subseteq> {x \<in> set input. entity (chr_of A x) = None} \<union> range (emit A)"
proof -
  from assms obtain b1 b2 b3 b4 b5 b6 b7 b8 b9 b10 b11 where
    1: "codeblock A (escape A input) = Some b1" and
    2: "inline_codeblock A b1 = Some b2" and
    3: "remove_suppressed_embed_arrows A b2 = Some b3" and
    4: "blockquote A b3 = Some b4" and
    5: "spoiler A b4 = Some b5" and
    6: "strikethrough A b5 = Some b6" and
    7: "bold A b6 = Some b7" and
    8: "underline A b7 = Some b8" and
    9: "italics A b8 = Some b9" and
    10: "linkify A b9 = Some b10" and
    11: "emojify A b10 (text_of A input) = Some b11" and
    12: "remove_escaped_symbol A b11 = Some out"
    unfolding markdown_def Let_def by (auto simp: bind_eq_Some_conv)
  let ?S = "{x \<in> set input. entity (chr_of A x) = None} \<union> range (emit A)"
  have s0: "set (escape A input) \<subseteq> ?S" by (rule escape_set)
  from codeblock_set [OF 1] s0 have s1: "set b1 \<subseteq> ?S" by blast
  from inline_codeblock_set [OF 2] s1 have s2: "set b2 \<subseteq> ?S" by blast
  from remove_suppressed_embed_arrows_set [OF 3] s2 have s3: "set b3 \<subseteq> ?S" by blast
  from blockquote_set [OF 4] s3 have s4: "set b4 \<subseteq> ?S" by blast
  from wrap_set_range [OF 5 [unfolded spoiler_def]] s4 have s5: "set b5 \<subseteq> ?S" by blast
  from wrap_set_range [OF 6 [unfolded strikethrough_def]] s5 have s6: "set b6 \<subseteq> ?S" by blast
  from wrap_set_range [OF 7 [unfolded bold_def]] s6 have s7: "set b7 \<subseteq> ?S" by blast
  from wrap_set_range [OF 8 [unfolded underline_def]] s7 have s8: "set b8 \<subseteq> ?S" by blast
  from italics_set [OF 9] s8 have s9: "set b9 \<subseteq> ?S" by blast
  from linkify_set [OF 10] s9 have s10: "set b10 \<subseteq> ?S" by blast
  from emojify_set [OF 11] s10 have s11: "set b11 \<subseteq> ?S" by blast
  from remove_escaped_symbol_set [OF 12] s11 show ?thesis by blast
qed

lemma entity_special: "html_special c \<Longrightarrow> entity c \<noteq> None"
  by (auto simp: html_special_def entity_def)

lemma emitted_engine: "x \<in> range (emit traced) \<Longrightarrow> snd x = Engine"
  by (auto simp: traced_def)

lemma keeps_safeI:
  assumes "\<And>buf out. pass buf = Some out \<Longrightarrow> set out \<subseteq> set buf \<union> range (emit traced)"
  shows "keeps_safe pass"
  unfolding keeps_safe_def html_safe_def
proof (intro allI impI notI, elim conjE bexE)
  fix buf out x
  assume safe: "\<not> (\<exists>x \<in> set buf. snd x = Raw \<and> html_special (fst x))"
    and p: "pass buf = Some out" and x: "x \<in> set out" "snd x = Raw" "html_special (fst x)"
  from assms [OF p] x(1) have "x \<in> set buf \<or> x \<in> range (emit traced)" by blast
  then show False
  proof
    assume "x \<in> set buf"
    with safe x show False by blast
  next
    assume "x \<in> range (emit traced)"
    from emitted_engine [OF this] x(2) show False by simp
  qed
qed

text \<open>
  Claim C1. Follow every character of the input through the pipeline by tagging it as raw,
  while everything the engine writes (the text of entities, and tags) is tagged as the
  engine's. For every input the pipeline returns a buffer which, with the tags forgotten, is
  the output of \<^verbatim>\<open>markdown\<close>; every raw character in it is a character of the input that has no
  entity, so none of them is \<^verbatim>\<open><\<close>, \<^verbatim>\<open>>\<close> or \<^verbatim>\<open>&\<close>: each of these in the output was written by
  the engine. The buffer is safe in this sense after \<^verbatim>\<open>escape\<close>, every construct pass and the
  final unprotect pass keep it safe.
\<close>

theorem html_safety:
  "(\<exists>out. markdown traced (raw s) = Some out
      \<and> markdown plain s = Some (map fst out)
      \<and> html_safe out
      \<and> (\<forall>x \<in> set out. snd x = Raw \<longrightarrow> fst x \<in> set s \<and> entity (fst x) = None))
   \<and> html_safe (escape traced (raw s))
   \<and> keeps_safe (codeblock traced)
   \<and> keeps_safe (inline_codeblock traced)
   \<and> keeps_safe (remove_suppressed_embed_arrows traced)
   \<and> keeps_safe (blockquote traced)
   \<and> keeps_safe (spoiler traced)
   \<and> keeps_safe (strikethrough traced)
   \<and> keeps_safe (bold traced)
   \<and> keeps_safe (underline traced)
   \<and> keeps_safe (italics traced)
   \<and> keeps_safe (linkify traced)
   \<and> keeps_safe (\<lambda>buf. emojify traced buf original_txt)
   \<and> keeps_safe (remove_escaped_symbol traced)"
proof -
  from markdown_total_any [of traced "raw s"] obtain out
    where out: "markdown traced (raw s) = Some out" by blast
  from markdown_erase [of s] out have pl: "markdown plain s = Some (map fst out)" by simp
  have prov: "\<forall>x \<in> set out. snd x = Raw \<longrightarrow> fst x \<in> set s \<and> entity (fst x) = None"
  proof (intro ballI impI)
    fix x assume x: "x \<in> set out" "snd x = Raw"
    from markdown_set [OF out] x(1)
    have "(x \<in> set (raw s) \<and> entity (chr_of traced x) = None) \<or> x \<in> range (emit traced)"
      by blast
    with emitted_engine [of x] x(2)
    have "x \<in> set (raw s)" "entity (chr_of traced x) = None" by auto
    then show "fst x \<in> set s \<and> entity (fst x) = None"
      by (auto simp: raw_def traced_def)
  qed
  have safe: "html_safe out"
    unfolding html_safe_def using prov entity_special by blast
  have "\<forall>x \<in> set (escape traced (raw s)). snd x = Raw \<longrightarrow> entity (fst x) = None"
    using escape_set [of traced "raw s"] emitted_engine by (auto simp: traced_def)
  then have esc: "html_safe (escape traced (raw s))"
    unfolding html_safe_def using entity_special by blast
  have k1: "keeps_safe (codeblock traced)" by (rule keeps_safeI) (rule codeblock_set)
  have k2: "keeps_safe (inline_codeblock traced)" by (rule keeps_safeI) (rule inline_codeblock_set)
  have k3: "keeps_safe (remove_suppressed_embed_arrows traced)"
    by (rule keeps_safeI) (rule remove_suppressed_embed_arrows_set)
  have k4: "keeps_safe (blockquote traced)" by (rule keeps_safeI) (rule blockquote_set)
  have k5: "keeps_safe (spoiler traced)"
    unfolding spoiler_def by (rule keeps_safeI) (rule wrap_set_range)
  have k6: "keeps_safe (strikethrough traced)"
    unfolding strikethrough_def by (rule keeps_safeI) (rule wrap_set_range)
  have k7: "keeps_safe (bold traced)"
    unfolding bold_def by (rule keeps_safeI) (rule wrap_set_range)
  have k8: "keeps_safe (underline traced)"
    unfolding underline_def by (rule keeps_safeI) (rule wrap_set_range)
  have k9: "keeps_safe (italics traced)" by (rule keeps_safeI) (rule italics_set)
  have k10: "keeps_safe (linkify traced)" by (rule keeps_safeI) (rule linkify_set)
  have k11: "keeps_safe (\<lambda>buf. emojify traced buf original_txt)"
    by (rule keeps_safeI) (rule emojify_set)
  have k12: "keeps_safe (remove_escaped_symbol traced)"
    by (rule keeps_safeI) (rule remove_escaped_symbol_set)
  from out pl safe prov have "\<exists>out. markdown traced (raw s) = Some out
      \<and> markdown plain s = Some (map fst out)
      \<and> html_safe out
      \<and> (\<forall>x \<in> set out. snd x = Raw \<longrightarrow> fst x \<in> set s \<and> entity (fst x) = None)"
    by blast
  with esc k1 k2 k3 k4 k5 k6 k7 k8 k9 k10 k11 k12 show ?thesis by blast
qed

theorem html_safety_witness:
  "\<exists>out. markdown traced (raw ''<*a*>'') = Some out
     \<and> map fst out = ''&lt;<em>a</em>&gt;''
     \<and> html_safe out
     \<and> (CHR ''<'', Raw) \<in> set (raw ''<*a*>'')
     \<and> (CHR ''<'', Raw) \<notin> set out"
proof -
  from html_safety [of "''<*a*>''"] obtain out where
    o: "markdown traced (raw ''<*a*>'') = Some out"
      "markdown plain ''<*a*>'' = Some (map fst out)" "html_safe out"
    by blast
  from o(2) md_angle_italics have m: "map fst out = ''&lt;<em>a</em>&gt;''" by simp
  have r: "(CHR ''<'', Raw) \<in> set (raw ''<*a*>'')" by (simp add: raw_def)
  from o(3) have n: "(CHR ''<'', Raw) \<notin> set out"
    by (auto simp: html_safe_def html_special_def)
  from o(1) m o(3) r n show ?thesis by (intro exI [of _ out] conjI)
qed

section \<open>The two copies of the engine\<close>


















end
